theory Spec2Isabelle
  imports Main "HOL-Library.Word"
begin

section \<open>The work pool of lib/utils/workpool/workpool.go\<close>

text \<open>
  The pool is a concurrent Go program: the callers of \<open>Get\<close>, \<open>Set\<close>, \<open>Stop\<close> and
  \<open>Release\<close>, the receivers on the \<open>Acquire\<close> channel, and one goroutine \<open>group.run\<close> per
  group. The model is an interleaving semantics. The shared state is a record; every
  critical section of the source (the body of a method that holds \<open>pool.Mutex\<close> or
  \<open>group.cmu\<close>, an atomic \<open>Add\<close>, one communication of a \<open>select\<close>) is one atomic
  step; a run is a list of steps. Pointers are addresses (indices) into two stores: the
  groups ever created and the leases ever allocated. Unsigned 64-bit integers are
  \<open>64 word\<close>, so \<open>+\<close> and \<open>-\<close> wrap as Go's \<open>uint64\<close> does. A key is a value of any type
  \<open>'k\<close>; Go's map needs a comparable key and panics on any other, so the model is about
  the calls with comparable keys.
\<close>

subsection \<open>Data\<close>

type_synonym u64 = "64 word"

text \<open>\<open>type Counts struct { Target uint64; Active uint64 }\<close>\<close>

record Counts =
  Target :: u64
  Active :: u64

text \<open>The zero value \<open>Counts{}\<close>.\<close>

definition zero_Counts :: Counts where
  "zero_Counts = \<lparr>Target = 0, Active = 0\<rparr>"

text \<open>
  Where the goroutine \<open>group.run\<close> stands: before \<open>counts = g.loadCounts()\<close>, before the
  \<open>if counts.Active < counts.Target\<close>, blocked in the \<open>select\<close>, inside the body of
  \<open>case grant <- nextLease\<close> (the send is done, \<open>g.incrActive()\<close> is not), or returned.
\<close>

datatype pc = PLoad | PBranch | PSelect | PGranted | PExit

text \<open>
  \<open>type group struct\<close>, together with the local variables of its goroutine. \<open>notifyC\<close> is
  the number of values buffered in the channel \<open>make(chan struct{}, 1)\<close>; \<open>cancelled\<close> says
  that the group's own \<open>cancel\<close> was called; \<open>run_counts\<close>, \<open>nextLease\<close> and \<open>grant\<close> are the
  locals \<open>counts\<close>, \<open>nextLease\<close> (an address, \<open>None\<close> for \<open>nil\<close>) and \<open>grant\<close> (\<open>True\<close> for
  \<open>g.grantC\<close>, \<open>False\<close> for \<open>nil\<close>) of \<open>run\<close>. The fields \<open>leaseIDs\<close> and \<open>grantC\<close> of the
  source are the pool's, shared by every group.
\<close>

record 'k group =
  counts :: Counts
  key :: 'k
  notifyC :: nat
  cancelled :: bool
  pc :: pc
  run_counts :: Counts
  nextLease :: "nat option"
  grant :: bool

text \<open>
  \<open>type lease struct { *group; id uint64; relOnce sync.Once }\<close>: the address of the owning
  group, the id, and whether \<open>relOnce\<close> has fired.
\<close>

record lease =
  lease_group :: nat
  lease_id :: u64
  relOnce :: bool

text \<open>
  \<open>type pool struct\<close>. \<open>ctx_done\<close> says that the pool's context is cancelled (by \<open>Stop\<close> or
  through the parent context given to \<open>NewPool\<close>). \<open>gheap\<close> and \<open>lheap\<close> are the stores of
  group and lease objects; the registry \<open>groups\<close> maps a key to the address of its group.
  \<open>granted\<close> is the history of the unbuffered channel \<open>grantC\<close>: the lease pointers that
  receivers on \<open>Acquire()\<close> have taken, oldest first.
\<close>

record 'k pool =
  leaseIDs :: u64
  groups :: "'k \<rightharpoonup> nat"
  ctx_done :: bool
  gheap :: "'k group list"
  lheap :: "lease list"
  granted :: "nat option list"

subsection \<open>Channels\<close>

text \<open>
  A buffered channel of \<open>struct{}\<close> is the number of values it holds. A send proceeds when
  the buffer has room and a receive when it holds a value; \<open>None\<close> says that the
  operation cannot proceed (it would block).
\<close>

definition chan_send :: "nat \<Rightarrow> nat \<Rightarrow> nat option" where
  "chan_send cap n = (if n < cap then Some (Suc n) else None)"

definition chan_recv :: "nat \<Rightarrow> nat option" where
  "chan_recv n = (case n of 0 \<Rightarrow> None | Suc m \<Rightarrow> Some m)"

text \<open>The capacity of \<open>notifyC\<close>, from \<open>make(chan struct{}, 1)\<close> in \<open>pool.start\<close>.\<close>

definition notifyC_cap :: nat where
  "notifyC_cap = 1"

subsection \<open>The methods of a group\<close>

text \<open>\<open>select { case g.notifyC <- struct{}{}: default: }\<close>\<close>

definition notify :: "'k group \<Rightarrow> 'k group" where
  "notify g = (case chan_send notifyC_cap (notifyC g) of
                 Some n \<Rightarrow> g\<lparr>notifyC := n\<rparr>
               | None \<Rightarrow> g)"

definition loadCounts :: "'k group \<Rightarrow> Counts" where
  "loadCounts g = counts g"

text \<open>
  \<open>incrActive\<close> and \<open>decrActive\<close> also return the new counts; no caller reads them, so the
  model returns the group only.
\<close>

definition incrActive :: "'k group \<Rightarrow> 'k group" where
  "incrActive g = notify (g\<lparr>counts := (counts g)\<lparr>Active := Active (counts g) + 1\<rparr>\<rparr>)"

definition decrActive :: "'k group \<Rightarrow> 'k group" where
  "decrActive g = notify (g\<lparr>counts := (counts g)\<lparr>Active := Active (counts g) - 1\<rparr>\<rparr>)"

definition SetTarget :: "'k group \<Rightarrow> u64 \<Rightarrow> 'k group" where
  "SetTarget g target = notify (g\<lparr>counts := (counts g)\<lparr>Target := target\<rparr>\<rparr>)"

subsection \<open>The methods of the pool\<close>

text \<open>\<open>NewPool\<close>: the counter at 0, an empty registry, a context that is not cancelled.\<close>

definition NewPool :: "'k pool" where
  "NewPool = \<lparr>leaseIDs = 0, groups = Map.empty, ctx_done = False,
              gheap = [], lheap = [], granted = []\<rparr>"

text \<open>
  \<open>pool.start\<close>: a new group object at a fresh address, entered in the registry, its
  goroutine at the top of its loop with \<open>nextLease = nil\<close> and \<open>grant = nil\<close>.
\<close>

definition start :: "'k pool \<Rightarrow> 'k \<Rightarrow> u64 \<Rightarrow> 'k pool" where
  "start p k target =
     p\<lparr>groups := (groups p)(k \<mapsto> length (gheap p)),
       gheap := gheap p @
         [\<lparr>counts = \<lparr>Target = target, Active = 0\<rparr>, key = k, notifyC = 0,
           cancelled = False, pc = PLoad, run_counts = zero_Counts,
           nextLease = None, grant = False\<rparr>]\<rparr>"

text \<open>\<open>pool.del\<close>: cancels the group of the key and deletes the key; returns whether it was there.\<close>

definition del :: "'k pool \<Rightarrow> 'k \<Rightarrow> bool \<times> 'k pool" where
  "del p k =
     (case groups p k of
        None \<Rightarrow> (False, p)
      | Some a \<Rightarrow>
          (True, p\<lparr>gheap := (gheap p)[a := (gheap p ! a)\<lparr>cancelled := True\<rparr>],
                   groups := (groups p)(k := None)\<rparr>))"

definition Set :: "'k pool \<Rightarrow> 'k \<Rightarrow> u64 \<Rightarrow> 'k pool" where
  "Set p k target =
     (if target < 1 then snd (del p k)
      else case groups p k of
             None \<Rightarrow> start p k target
           | Some a \<Rightarrow> p\<lparr>gheap := (gheap p)[a := SetTarget (gheap p ! a) target]\<rparr>)"

text \<open>\<open>pool.Get\<close> returns the counts and the pool as it leaves it.\<close>

definition Get :: "'k pool \<Rightarrow> 'k \<Rightarrow> Counts \<times> 'k pool" where
  "Get p k =
     (case groups p k of
        Some a \<Rightarrow> (loadCounts (gheap p ! a), p)
      | None \<Rightarrow> (zero_Counts, p))"

definition Stop :: "'k pool \<Rightarrow> 'k pool" where
  "Stop p = p\<lparr>ctx_done := True\<rparr>"

text \<open>
  \<open>lease.Release\<close> on the lease at address \<open>l\<close>: \<open>relOnce.Do\<close> runs \<open>decrActive\<close> of the
  owning group the first time and nothing afterwards.
\<close>

definition Release :: "'k pool \<Rightarrow> nat \<Rightarrow> 'k pool" where
  "Release p l =
     (let le = lheap p ! l in
      if relOnce le then p
      else p\<lparr>lheap := (lheap p)[l := le\<lparr>relOnce := True\<rparr>],
             gheap := (gheap p)[lease_group le := decrActive (gheap p ! lease_group le)]\<rparr>)"

subsection \<open>The no-op lease\<close>

text \<open>\<open>type nopLease struct { key interface{} }\<close> and its three methods.\<close>

record 'k nopLease =
  nop_key :: 'k

definition NOPLease :: "'k \<Rightarrow> 'k nopLease" where
  "NOPLease k = \<lparr>nop_key = k\<rparr>"

definition nopLease_ID :: "'k nopLease \<Rightarrow> u64" where
  "nopLease_ID l = 0"

definition nopLease_Key :: "'k nopLease \<Rightarrow> 'k" where
  "nopLease_Key l = nop_key l"

text \<open>\<open>func (l *nopLease) Release() {}\<close>, on any state \<open>s\<close> of the world.\<close>

definition nopLease_Release :: "'k nopLease \<Rightarrow> 's \<Rightarrow> 's" where
  "nopLease_Release l s = s"

subsection \<open>The goroutine of a group\<close>

text \<open>The context of a group is done when its own \<open>cancel\<close> was called or the pool's context is done.\<close>

definition group_done :: "'k pool \<Rightarrow> 'k group \<Rightarrow> bool" where
  "group_done p g = (cancelled g \<or> ctx_done p)"

text \<open>\<open>counts = g.loadCounts()\<close>\<close>

definition run_load :: "nat \<Rightarrow> 'k pool \<Rightarrow> 'k pool option" where
  "run_load a p =
     (let g = gheap p ! a in
      if pc g = PLoad
      then Some (p\<lparr>gheap := (gheap p)[a := g\<lparr>run_counts := loadCounts g, pc := PBranch\<rparr>]\<rparr>)
      else None)"

text \<open>
  The \<open>if counts.Active < counts.Target\<close> of the loop. In the granting branch a candidate
  is allocated only when \<open>nextLease == nil\<close>, with the id \<open>g.leaseIDs.Add(1)\<close> (the counter
  after the increment).
\<close>

definition run_branch :: "nat \<Rightarrow> 'k pool \<Rightarrow> 'k pool option" where
  "run_branch a p =
     (let g = gheap p ! a in
      if pc g \<noteq> PBranch then None
      else if Active (run_counts g) < Target (run_counts g) then
        (case nextLease g of
           None \<Rightarrow>
             Some (p\<lparr>leaseIDs := leaseIDs p + 1,
                     lheap := lheap p @
                       [\<lparr>lease_group = a, lease_id = leaseIDs p + 1, relOnce = False\<rparr>],
                     gheap := (gheap p)[a := g\<lparr>grant := True,
                                                nextLease := Some (length (lheap p)),
                                                pc := PSelect\<rparr>]\<rparr>)
         | Some l \<Rightarrow>
             Some (p\<lparr>gheap := (gheap p)[a := g\<lparr>grant := True, pc := PSelect\<rparr>]\<rparr>))
      else Some (p\<lparr>gheap := (gheap p)[a := g\<lparr>grant := False, pc := PSelect\<rparr>]\<rparr>))"

text \<open>
  The three cases of the \<open>select\<close>. The send on \<open>grant\<close> can proceed when \<open>grant\<close> is not
  nil and a receiver waits on \<open>Acquire()\<close>; the receiver is the environment, and the
  pointer it takes is appended to \<open>granted\<close>. The receive on \<open>notifyC\<close> can proceed when
  the channel holds a value, and the receive on \<open>ctx.Done()\<close> when the context of the group
  is done.

  At \<open>PSelect\<close> the goroutine is about to enter the \<open>select\<close> or is parked in it. Go picks
  at random among the cases that can proceed when the \<open>select\<close> is entered, and resumes a
  parked goroutine with the first case that can proceed. The model lets the goroutine take
  any case that can proceed in the current state: every run of the program is a run of the
  model.
\<close>

definition run_send :: "nat \<Rightarrow> 'k pool \<Rightarrow> 'k pool option" where
  "run_send a p =
     (let g = gheap p ! a in
      if pc g = PSelect \<and> grant g
      then Some (p\<lparr>granted := granted p @ [nextLease g],
                   gheap := (gheap p)[a := g\<lparr>pc := PGranted\<rparr>]\<rparr>)
      else None)"

definition run_notified :: "nat \<Rightarrow> 'k pool \<Rightarrow> 'k pool option" where
  "run_notified a p =
     (let g = gheap p ! a in
      if pc g = PSelect
      then (case chan_recv (notifyC g) of
              Some n \<Rightarrow> Some (p\<lparr>gheap := (gheap p)[a := g\<lparr>notifyC := n, pc := PLoad\<rparr>]\<rparr>)
            | None \<Rightarrow> None)
      else None)"

definition run_done :: "nat \<Rightarrow> 'k pool \<Rightarrow> 'k pool option" where
  "run_done a p =
     (let g = gheap p ! a in
      if pc g = PSelect \<and> group_done p g
      then Some (p\<lparr>gheap := (gheap p)[a := g\<lparr>pc := PExit\<rparr>]\<rparr>)
      else None)"

text \<open>The body of \<open>case grant <- nextLease\<close>: \<open>g.incrActive(); nextLease = nil\<close>.\<close>

definition run_granted :: "nat \<Rightarrow> 'k pool \<Rightarrow> 'k pool option" where
  "run_granted a p =
     (let g = gheap p ! a in
      if pc g = PGranted
      then Some (p\<lparr>gheap := (gheap p)[a := (incrActive g)\<lparr>nextLease := None, pc := PLoad\<rparr>]\<rparr>)
      else None)"

subsection \<open>Runs\<close>

text \<open>
  The steps of the system. The first five are calls from outside: \<open>Set\<close>, \<open>Get\<close>, \<open>Stop\<close>,
  the cancellation of the parent context, and \<open>Release\<close> on a lease pointer that some
  receiver has taken from \<open>Acquire()\<close>. The others are the steps of the goroutine of the
  group at an address.
\<close>

datatype 'k event =
    ESet 'k u64
  | EGet 'k
  | EStop
  | EParentCancel
  | ERelease nat
  | GLoad nat
  | GBranch nat
  | GSend nat
  | GGranted nat
  | GNotified nat
  | GDone nat

text \<open>A goroutine exists for the groups that \<open>start\<close> has created.\<close>

definition on_group :: "(nat \<Rightarrow> 'k pool \<Rightarrow> 'k pool option) \<Rightarrow> nat \<Rightarrow> 'k pool \<Rightarrow> 'k pool option" where
  "on_group f a p = (if a < length (gheap p) then f a p else None)"

fun step :: "'k event \<Rightarrow> 'k pool \<Rightarrow> 'k pool option" where
  "step (ESet k target) p = Some (Set p k target)"
| "step (EGet k) p = Some (snd (Get p k))"
| "step EStop p = Some (Stop p)"
| "step EParentCancel p = Some (p\<lparr>ctx_done := True\<rparr>)"
| "step (ERelease l) p = (if Some l \<in> set (granted p) then Some (Release p l) else None)"
| "step (GLoad a) p = on_group run_load a p"
| "step (GBranch a) p = on_group run_branch a p"
| "step (GSend a) p = on_group run_send a p"
| "step (GGranted a) p = on_group run_granted a p"
| "step (GNotified a) p = on_group run_notified a p"
| "step (GDone a) p = on_group run_done a p"

fun exec :: "'k event list \<Rightarrow> 'k pool \<Rightarrow> 'k pool option" where
  "exec [] p = Some p"
| "exec (e # es) p = (case step e p of None \<Rightarrow> None | Some p' \<Rightarrow> exec es p')"

text \<open>The states of the pool that some run from \<open>NewPool\<close> reaches.\<close>

definition reachable :: "'k pool \<Rightarrow> bool" where
  "reachable p = (\<exists>es. exec es NewPool = Some p)"

section \<open>Observations and invariants\<close>

subsection \<open>The last \<open>Set\<close> of a run\<close>

text \<open>The target that the last \<open>Set\<close> on a key gave, in a run; \<open>None\<close> when the run has none.\<close>

fun last_Set :: "'k \<Rightarrow> 'k event list \<Rightarrow> u64 option" where
  "last_Set k [] = None"
| "last_Set k (e # es) =
     (case last_Set k es of
        Some t \<Rightarrow> Some t
      | None \<Rightarrow> (case e of ESet k' t \<Rightarrow> if k' = k then Some t else None | _ \<Rightarrow> None))"

text \<open>What the registry and the target of a key are after a run, from the last \<open>Set\<close> on that key.\<close>

definition set_state :: "'k pool \<Rightarrow> 'k \<Rightarrow> u64 option \<Rightarrow> bool" where
  "set_state p k r =
     (case r of
        None \<Rightarrow> groups p k = None
      | Some t \<Rightarrow> if t < 1 then groups p k = None
                  else (\<exists>a. groups p k = Some a \<and> Target (counts (gheap p ! a)) = t))"

subsection \<open>Invariants of the reachable states\<close>

text \<open>No wake channel holds more than its capacity.\<close>

definition inv_notify :: "'k pool \<Rightarrow> bool" where
  "inv_notify p = (\<forall>a < length (gheap p). notifyC (gheap p ! a) \<le> notifyC_cap)"

text \<open>The registry holds addresses of existing groups, each filed under its own key.\<close>

definition inv_registry :: "'k pool \<Rightarrow> bool" where
  "inv_registry p =
     (\<forall>k a. groups p k = Some a \<longrightarrow> a < length (gheap p) \<and> key (gheap p ! a) = k)"

text \<open>
  The id counter is the number of leases allocated (in \<open>uint64\<close>); the lease at address
  \<open>l\<close> has the id \<open>l + 1\<close> (in \<open>uint64\<close>) and belongs to an existing group.
\<close>

definition inv_lease :: "'k pool \<Rightarrow> bool" where
  "inv_lease p =
     (leaseIDs p = of_nat (length (lheap p)) \<and>
      (\<forall>l < length (lheap p). lease_group (lheap p ! l) < length (gheap p) \<and>
                               lease_id (lheap p ! l) = of_nat (Suc l)))"

text \<open>A candidate is an allocated lease of the group that holds it.\<close>

definition inv_cand :: "'k pool \<Rightarrow> bool" where
  "inv_cand p =
     (\<forall>a < length (gheap p). \<forall>c. nextLease (gheap p ! a) = Some c \<longrightarrow>
        c < length (lheap p) \<and> lease_group (lheap p ! c) = a)"

text \<open>
  In the \<open>select\<close> and in the body of its send case, \<open>grant\<close> is not nil exactly when the
  snapshot has \<open>Active < Target\<close>, and then there is a candidate.
\<close>

definition inv_select :: "'k pool \<Rightarrow> bool" where
  "inv_select p =
     (\<forall>a < length (gheap p).
        (pc (gheap p ! a) = PSelect \<or> pc (gheap p ! a) = PGranted \<longrightarrow>
           grant (gheap p ! a) = (Active (run_counts (gheap p ! a)) < Target (run_counts (gheap p ! a))) \<and>
           (grant (gheap p ! a) \<longrightarrow> nextLease (gheap p ! a) \<noteq> None)) \<and>
        (pc (gheap p ! a) = PGranted \<longrightarrow> grant (gheap p ! a)))"

text \<open>Every pointer taken from the channel is an allocated lease (never nil).\<close>

definition inv_granted :: "'k pool \<Rightarrow> bool" where
  "inv_granted p = (\<forall>x \<in> set (granted p). \<exists>l. x = Some l \<and> l < length (lheap p))"

text \<open>
  Only granted leases are released, and the candidate of a group has been granted exactly
  when the group is in the body of the send case.
\<close>

definition inv_fresh :: "'k pool \<Rightarrow> bool" where
  "inv_fresh p =
     ((\<forall>l < length (lheap p). relOnce (lheap p ! l) \<longrightarrow> Some l \<in> set (granted p)) \<and>
      (\<forall>a < length (gheap p). \<forall>c. nextLease (gheap p ! a) = Some c \<longrightarrow>
         (Some c \<in> set (granted p)) = (pc (gheap p ! a) = PGranted)))"

text \<open>
  The leases of one group are granted in the order of their addresses, and none of them
  lies after the group's candidate.
\<close>

definition inv_order :: "'k pool \<Rightarrow> bool" where
  "inv_order p =
     ((\<forall>i j l m. i < j \<and> j < length (granted p) \<and> granted p ! i = Some l \<and>
          granted p ! j = Some m \<and> lease_group (lheap p ! l) = lease_group (lheap p ! m)
          \<longrightarrow> l < m) \<and>
      (\<forall>a < length (gheap p). \<forall>c l. nextLease (gheap p ! a) = Some c \<and>
          Some l \<in> set (granted p) \<and> lease_group (lheap p ! l) = a \<longrightarrow> l \<le> c))"

text \<open>A pointer in the grant history that is a lease of group \<open>a\<close> and not released.\<close>

definition held :: "lease list \<Rightarrow> nat \<Rightarrow> nat option \<Rightarrow> bool" where
  "held ls a x = (case x of None \<Rightarrow> False
                  | Some l \<Rightarrow> lease_group (ls ! l) = a \<and> \<not> relOnce (ls ! l))"

text \<open>The number of leases of group \<open>a\<close> that were granted and not released.\<close>

definition outstanding :: "'k pool \<Rightarrow> nat \<Rightarrow> nat" where
  "outstanding p a = length (filter (held (lheap p) a) (granted p))"

text \<open>
  How \<open>Active\<close> relates to the number \<open>n\<close> of outstanding leases: it is \<open>n\<close>, except in the
  body of the send case, where the lease just granted is not counted yet (and may have
  been released already); between \<open>loadCounts\<close> and the \<open>select\<close> it is at most the
  snapshot's.
\<close>

definition count_ok :: "'k group \<Rightarrow> nat \<Rightarrow> bool" where
  "count_ok g n =
     ((pc g \<noteq> PGranted \<longrightarrow> unat (Active (counts g)) = n) \<and>
      (pc g = PGranted \<longrightarrow> Active (counts g) + 1 = of_nat n \<and>
                              n \<le> Suc (unat (Active (run_counts g)))) \<and>
      (pc g = PBranch \<or> pc g = PSelect \<longrightarrow> Active (counts g) \<le> Active (run_counts g)))"

text \<open>Every group counts its outstanding leases in this way.\<close>

definition inv_count :: "'k pool \<Rightarrow> bool" where
  "inv_count p = (\<forall>a < length (gheap p). count_ok (gheap p ! a) (outstanding p a))"

text \<open>All invariants together.\<close>

definition inv_all :: "'k pool \<Rightarrow> bool" where
  "inv_all p = (inv_registry p \<and> inv_notify p \<and> inv_lease p \<and> inv_cand p \<and> inv_select p \<and>
                inv_granted p \<and> inv_fresh p \<and> inv_order p \<and> inv_count p)"

text \<open>The group holds a snapshot with \<open>Active < Target\<close> that it has not given up yet.\<close>

definition offering :: "'k group \<Rightarrow> bool" where
  "offering g =
     ((pc g = PBranch \<and> Active (run_counts g) < Target (run_counts g)) \<or>
      (pc g = PSelect \<and> grant g) \<or> pc g = PGranted)"

subsection \<open>What a run shows\<close>

text \<open>
  The counts that \<open>Get\<close> reports, the grant history, the ids of the granted leases, the id
  counter and the state of the pool's context after a run from a new pool; \<open>None\<close> when
  some step of the run is not enabled.
\<close>

definition counts_after :: "'k event list \<Rightarrow> 'k \<Rightarrow> Counts option" where
  "counts_after es k = map_option (\<lambda>p. fst (Get p k)) (exec es NewPool)"

definition granted_after :: "'k event list \<Rightarrow> nat option list option" where
  "granted_after es = map_option granted (exec es (NewPool :: 'k pool))"

definition stopped_after :: "'k event list \<Rightarrow> bool option" where
  "stopped_after es = map_option ctx_done (exec es (NewPool :: 'k pool))"

definition granted_ids_after :: "'k event list \<Rightarrow> u64 option list option" where
  "granted_ids_after es =
     map_option (\<lambda>p. map (map_option (\<lambda>l. lease_id (lheap p ! l))) (granted p))
       (exec es (NewPool :: 'k pool))"

definition leaseIDs_after :: "'k event list \<Rightarrow> u64 option" where
  "leaseIDs_after es = map_option leaseIDs (exec es (NewPool :: 'k pool))"

subsection \<open>Sample runs\<close>

text \<open>
  Runs of a pool with string keys, used as examples. Each is a run of the program: where a
  goroutine sends a lease, a receiver waits on \<open>Acquire()\<close> and the goroutine enters its
  \<open>select\<close> at that step of the run, after the steps listed before it.
\<close>

definition set_run :: "string event list" where
  "set_run = [ESet ''a'' 3, ESet ''b'' 0, GLoad 0, GBranch 0, GSend 0, GGranted 0, ESet ''b'' 4,
              ESet ''a'' 5, ESet ''b'' 0]"

definition wake_run :: "string event list" where
  "wake_run = [ESet ''a'' 1, ESet ''a'' 2, GLoad 0, GBranch 0, GSend 0]"

text \<open>
  Target 2, one lease granted, the snapshot \<open>{2, 1}\<close> taken and a second candidate
  allocated; then \<open>Set\<close> lowers the target to 1.
\<close>

definition stale_run :: "string event list" where
  "stale_run = [ESet ''a'' 2, GLoad 0, GBranch 0, GSend 0, GGranted 0, GLoad 0, GBranch 0,
                ESet ''a'' 1]"

text \<open>A lease is granted and released before the goroutine runs \<open>incrActive\<close>.\<close>

definition window_run :: "string event list" where
  "window_run = [ESet ''a'' 1, GLoad 0, GBranch 0, GSend 0, ERelease 0]"

text \<open>Target 1 and one lease granted; the goroutine is back at the top of its loop.\<close>

definition idle_run :: "string event list" where
  "idle_run = [ESet ''a'' 1, GLoad 0, GBranch 0, GSend 0, GGranted 0]"

text \<open>The same, then the group is deleted and the lease released.\<close>

definition delete_run :: "string event list" where
  "delete_run = [ESet ''a'' 1, GLoad 0, GBranch 0, GSend 0, GGranted 0, ESet ''a'' 0, ERelease 0]"

text \<open>A group that has an offer ready when \<open>Stop\<close> is called.\<close>

definition stop_run :: "string event list" where
  "stop_run = [ESet ''a'' 1, GLoad 0, GBranch 0, EStop]"

text \<open>A candidate is allocated, then its group is deleted and the goroutine returns.\<close>

definition burn_prefix :: "string event list" where
  "burn_prefix = [ESet ''a'' 1, GLoad 0, GBranch 0, ESet ''a'' 0, GDone 0]"

text \<open>Then the key gets a new group, whose first candidate is granted.\<close>

definition burn_run :: "string event list" where
  "burn_run = burn_prefix @ [ESet ''a'' 1, GLoad 1, GBranch 1, GSend 1]"

text \<open>Two groups allocate candidates; the second candidate is granted first.\<close>

definition cross_run :: "string event list" where
  "cross_run = [ESet ''a'' 1, ESet ''b'' 1, GLoad 0, GBranch 0, GLoad 1, GBranch 1, GSend 1,
                GSend 0]"

text \<open>
  One round that draws an id and grants nothing: \<open>Set(k, 1)\<close> creates the group at address
  \<open>n\<close>, its goroutine loads the counts and allocates a candidate, \<open>Set(k, 0)\<close> deletes the
  group, and the goroutine returns.
\<close>

definition burn_cycle :: "'k \<Rightarrow> nat \<Rightarrow> 'k event list" where
  "burn_cycle k n = [ESet k 1, GLoad n, GBranch n, ESet k 0, GDone n]"

text \<open>\<open>n\<close> such rounds, from a state with \<open>b\<close> group objects.\<close>

fun burn :: "'k \<Rightarrow> nat \<Rightarrow> nat \<Rightarrow> 'k event list" where
  "burn k b 0 = []"
| "burn k b (Suc n) = burn k b n @ burn_cycle k (b + n)"

text \<open>\<open>2 ^ 64 - 1\<close> rounds from the new pool, then one more candidate, which is granted.\<close>

definition wrap_run :: "string event list" where
  "wrap_run = burn ''a'' 0 18446744073709551615 @
     [ESet ''a'' 1, GLoad 18446744073709551615, GBranch 18446744073709551615,
      GSend 18446744073709551615]"

text \<open>
  A lease is granted (it has id 1) and its group deleted; after \<open>2 ^ 64 - 1\<close> rounds one
  more candidate is allocated and granted.
\<close>

definition dup_prefix :: "string event list" where
  "dup_prefix = [ESet ''a'' 1, GLoad 0, GBranch 0, GSend 0, GGranted 0, ESet ''a'' 0, GLoad 0,
                 GBranch 0, GDone 0]"

definition dup_run :: "string event list" where
  "dup_run = dup_prefix @ burn ''a'' 1 18446744073709551615 @
     [ESet ''a'' 1, GLoad 18446744073709551616, GBranch 18446744073709551616,
      GSend 18446744073709551616]"

section \<open>Facts about steps and runs\<close>

subsection \<open>Runs and reachable states\<close>

lemmas run_defs = on_group_def run_load_def run_branch_def run_send_def run_granted_def
  run_notified_def run_done_def
lemmas pool_defs = Set_def del_def start_def Get_def Stop_def Release_def
lemmas group_defs = notify_def chan_send_def chan_recv_def notifyC_cap_def loadCounts_def
  incrActive_def decrActive_def SetTarget_def

lemma exec_append:
  "exec (es @ fs) p = (case exec es p of None \<Rightarrow> None | Some q \<Rightarrow> exec fs q)"
  by (induction es arbitrary: p) (auto split: option.splits)

lemma exec_snoc:
  "exec (es @ [e]) p = Some q \<longleftrightarrow> (\<exists>r. exec es p = Some r \<and> step e r = Some q)"
  by (auto simp: exec_append split: option.splits)

lemma reachable_NewPool: "reachable NewPool"
  unfolding reachable_def by (rule exI [of _ "[]"]) simp

lemma reachable_step: "reachable p \<Longrightarrow> step e p = Some q \<Longrightarrow> reachable q"
  unfolding reachable_def
proof (elim exE)
  fix es assume "step e p = Some q" "exec es NewPool = Some p"
  then have "exec (es @ [e]) NewPool = Some q" by (simp add: exec_snoc)
  then show "\<exists>es. exec es NewPool = Some q" by blast
qed

lemma exec_invariant:
  assumes "exec es p = Some q" and "P p"
    and "\<And>e r s. P r \<Longrightarrow> step e r = Some s \<Longrightarrow> P s"
  shows "P q"
  using assms(1,2)
proof (induction es arbitrary: p)
  case Nil then show ?case by simp
next
  case (Cons e es)
  then show ?case using assms(3) by (auto split: option.splits)
qed

subsection \<open>The wake channel and the registry\<close>

lemma nth_upd: "j < length xs \<Longrightarrow> xs[i := x] ! j = (if i = j then x else xs ! j)"
  by (cases "i = j") simp_all

lemma inv_notify_step: "inv_notify p \<Longrightarrow> step e p = Some q \<Longrightarrow> inv_notify q"
  unfolding inv_notify_def
  by (cases e)
     (fastforce simp: run_defs pool_defs group_defs Let_def nth_append nth_upd split: option.splits if_splits nat.splits)+

lemma reachable_invariant:
  assumes "reachable p" and "P NewPool"
    and "\<And>e r s. P r \<Longrightarrow> step e r = Some s \<Longrightarrow> P s"
  shows "P p"
proof -
  from assms(1) obtain es where "exec es (NewPool :: 'a pool) = Some p"
    unfolding reachable_def by blast
  then show ?thesis using assms(2,3) by (rule exec_invariant)
qed

lemma inv_registry_step: "inv_registry p \<Longrightarrow> step e p = Some q \<Longrightarrow> inv_registry q"
  unfolding inv_registry_def
  by (cases e)
     (fastforce simp: run_defs pool_defs group_defs Let_def nth_append nth_upd split: option.splits if_splits nat.splits)+

lemma inv_registry_NewPool: "inv_registry NewPool"
  by (simp add: inv_registry_def NewPool_def)

lemma inv_registry_exec: "inv_registry p \<Longrightarrow> exec es p = Some q \<Longrightarrow> inv_registry q"
  by (rule exec_invariant [where P = inv_registry]) (auto intro: inv_registry_step)

subsection \<open>The last Set on a key\<close>

lemma last_Set_snoc:
  "last_Set k (es @ [e]) =
     (case e of ESet k' t \<Rightarrow> if k' = k then Some t else last_Set k es | _ \<Rightarrow> last_Set k es)"
  by (induction es) (auto split: option.splits event.splits)

lemma last_Set_None: "last_Set k es = None \<longleftrightarrow> (\<forall>t. ESet k t \<notin> set es)"
  by (induction es) (auto split: option.splits event.splits)

lemma last_Set_mem: "last_Set k es = Some t \<Longrightarrow> ESet k t \<in> set es"
  by (induction es) (auto split: option.splits event.splits if_splits)

lemma word_less_1_iff: "(t :: u64) < 1 \<longleftrightarrow> t = 0"
  by (simp add: word_less_1)

lemma registry_inj:
  "inv_registry p \<Longrightarrow> groups p k = Some a \<Longrightarrow> groups p k' = Some a \<Longrightarrow> k = k'"
  unfolding inv_registry_def by blast

lemma registry_bound: "inv_registry p \<Longrightarrow> groups p k = Some a \<Longrightarrow> a < length (gheap p)"
  unfolding inv_registry_def by blast

lemma Set_other_key:
  assumes "inv_registry p" "k' \<noteq> k"
  shows "groups (Set p k' t) k = groups p k"
    and "groups p k = Some a \<Longrightarrow> counts (gheap (Set p k' t) ! a) = counts (gheap p ! a)"
proof -
  show "groups (Set p k' t) k = groups p k"
    using assms(2) by (simp add: pool_defs split: option.splits)
  assume a: "groups p k = Some a"
  then have lt: "a < length (gheap p)" using assms(1) by (auto dest: registry_bound)
  have ne: "groups p k' = Some b \<Longrightarrow> b \<noteq> a" for b
    using registry_inj [OF assms(1) a] assms(2) by blast
  show "counts (gheap (Set p k' t) ! a) = counts (gheap p ! a)"
    using lt ne by (auto simp: pool_defs nth_append split: option.splits)
qed

lemma Set_same_key:
  assumes "inv_registry p"
  shows "set_state (Set p k t) k (Some t)"
proof (cases "groups p k")
  case None
  then show ?thesis
    by (simp add: set_state_def pool_defs)
next
  case (Some a)
  then have "a < length (gheap p)" using assms by (auto dest: registry_bound)
  with Some show ?thesis
    by (simp add: set_state_def pool_defs group_defs split: option.splits)
qed

lemma step_frame_Target:
  assumes "step e p = Some q" "\<And>k t. e \<noteq> ESet k t"
  shows "groups q = groups p"
    and "a < length (gheap p) \<Longrightarrow> Target (counts (gheap q ! a)) = Target (counts (gheap p ! a))"
  using assms
  by (cases e; auto simp: run_defs pool_defs group_defs Let_def nth_upd
         split: option.splits if_splits nat.splits)+

lemma set_state_step:
  assumes "inv_registry p" "step e p = Some q" "set_state p k (last_Set k es)"
  shows "set_state q k (last_Set k (es @ [e]))"
proof (cases "\<exists>k' t. e = ESet k' t")
  case True
  then obtain k' t where e: "e = ESet k' t" by blast
  then have q: "q = Set p k' t" using assms(2) by simp
  show ?thesis
  proof (cases "k' = k")
    case True
    then show ?thesis using Set_same_key [OF assms(1), of k t] e q
      by (simp add: last_Set_snoc)
  next
    case False
    then have "last_Set k (es @ [e]) = last_Set k es" using e by (simp add: last_Set_snoc)
    moreover have "groups q k = groups p k" using Set_other_key(1) [OF assms(1) False] q by simp
    moreover have "groups p k = Some a \<Longrightarrow> counts (gheap q ! a) = counts (gheap p ! a)" for a
      using Set_other_key(2) [OF assms(1) False] q by simp
    ultimately show ?thesis using assms(3)
      by (auto simp: set_state_def split: option.splits if_splits)
  qed
next
  case False
  then have ne: "\<And>k t. e \<noteq> ESet k t" by blast
  then have "last_Set k (es @ [e]) = last_Set k es"
    by (cases e) (auto simp: last_Set_snoc)
  moreover have "groups q = groups p" using step_frame_Target(1) [OF assms(2) ne] .
  moreover have "groups p k = Some a \<Longrightarrow> Target (counts (gheap q ! a)) = Target (counts (gheap p ! a))" for a
    using step_frame_Target(2) [OF assms(2) ne] registry_bound [OF assms(1)] by blast
  ultimately show ?thesis using assms(3)
    by (auto simp: set_state_def split: option.splits if_splits)
qed

lemma set_state_exec:
  "exec es NewPool = Some p \<Longrightarrow> set_state p k (last_Set k es)"
proof (induction es arbitrary: p rule: rev_induct)
  case Nil
  then show ?case by (auto simp: set_state_def NewPool_def)
next
  case (snoc e es)
  then obtain r where r: "exec es NewPool = Some r" "step e r = Some p"
    by (auto simp: exec_snoc)
  have "inv_registry r" using inv_registry_NewPool r(1) by (rule inv_registry_exec)
  then show ?case using r(2) snoc.IH [OF r(1)] by (rule set_state_step)
qed

lemmas exec_defs = NewPool_def zero_Counts_def run_defs pool_defs group_defs

lemma inv_notify_NewPool: "inv_notify NewPool"
  by (simp add: inv_notify_def NewPool_def)

lemma word_ge_1_iff: "1 \<le> (t :: u64) \<longleftrightarrow> t \<noteq> 0"
  by (simp add: word_le_nat_alt Suc_le_eq unat_gt_0)

lemma word_ge_1_not_less: "1 \<le> (t :: u64) \<Longrightarrow> \<not> t < 1"
  by (simp add: word_ge_1_iff word_less_1_iff)

lemma Get_of_set_state:
  assumes "set_state p k r"
  shows "(\<forall>t. r = Some t \<and> 1 \<le> t \<longrightarrow> Target (fst (Get p k)) = t) \<and>
         (\<forall>t. r = Some t \<and> t < 1 \<longrightarrow> fst (Get p k) = zero_Counts) \<and>
         (r = None \<longrightarrow> fst (Get p k) = zero_Counts)"
  using assms
  by (auto simp: set_state_def Get_def loadCounts_def word_less_1_iff word_ge_1_iff
           split: option.splits if_splits)

lemma Set_existing:
  assumes "inv_registry p" "groups p k = Some a" "1 \<le> t"
  shows "(Set p k t)\<lparr>gheap := gheap p\<rparr> = p"
    and "length (gheap (Set p k t)) = length (gheap p)"
    and "\<forall>b. b \<noteq> a \<longrightarrow> gheap (Set p k t) ! b = gheap p ! b"
    and "(gheap (Set p k t) ! a)\<lparr>notifyC := notifyC (gheap p ! a)\<rparr> =
           (gheap p ! a)\<lparr>counts := (counts (gheap p ! a))\<lparr>Target := t\<rparr>\<rparr>"
    and "fst (Get (Set p k t) k) = (fst (Get p k))\<lparr>Target := t\<rparr>"
proof -
  have lt: "a < length (gheap p)" using assms(1,2) by (auto dest: registry_bound)
  have nz: "\<not> t < 1" using assms(3) by (rule word_ge_1_not_less)
  show "(Set p k t)\<lparr>gheap := gheap p\<rparr> = p"
    using assms(2) nz by (simp add: Set_def)
  show "length (gheap (Set p k t)) = length (gheap p)"
    using assms(2) nz by (simp add: Set_def)
  show "\<forall>b. b \<noteq> a \<longrightarrow> gheap (Set p k t) ! b = gheap p ! b"
    using assms(2) nz by (simp add: Set_def)
  show "(gheap (Set p k t) ! a)\<lparr>notifyC := notifyC (gheap p ! a)\<rparr> =
           (gheap p ! a)\<lparr>counts := (counts (gheap p ! a))\<lparr>Target := t\<rparr>\<rparr>"
    using assms(2) nz lt by (simp add: Set_def group_defs)
  show "fst (Get (Set p k t) k) = (fst (Get p k))\<lparr>Target := t\<rparr>"
    using assms(2) nz lt by (simp add: Set_def Get_def group_defs)
qed

lemma Set_fresh:
  assumes "groups p k = None" "1 \<le> t"
  shows "fst (Get (Set p k t) k) = \<lparr>Target = t, Active = 0\<rparr>"
proof -
  have nz: "\<not> t < 1" using assms(2) by (rule word_ge_1_not_less)
  show ?thesis using assms(1) nz by (simp add: Set_def Get_def start_def loadCounts_def)
qed

subsection \<open>Leases, candidates and the select\<close>

lemmas step_simps = run_defs pool_defs group_defs Let_def nth_append nth_upd

lemmas step_splits = option.splits if_splits nat.splits

lemma inv_lease_step: "inv_lease p \<Longrightarrow> step e p = Some q \<Longrightarrow> inv_lease q"
  unfolding inv_lease_def
proof (cases e)
  case (GBranch a)
  assume "leaseIDs p = word_of_nat (length (lheap p)) \<and>
    (\<forall>l<length (lheap p).
        lease_group (lheap p ! l) < length (gheap p) \<and>
        lease_id (lheap p ! l) = word_of_nat (Suc l))" "step e p = Some q"
  with GBranch show "leaseIDs q = word_of_nat (length (lheap q)) \<and>
    (\<forall>l<length (lheap q).
        lease_group (lheap q ! l) < length (gheap q) \<and>
        lease_id (lheap q ! l) = word_of_nat (Suc l))"
    by (auto simp: run_defs Let_def nth_append less_Suc_eq add.commute split: step_splits)
qed (fastforce simp: step_simps split: step_splits)+

lemma inv_cand_step: "inv_cand p \<Longrightarrow> step e p = Some q \<Longrightarrow> inv_cand q"
  unfolding inv_cand_def
  by (cases e; clarsimp simp: step_simps split: step_splits; auto)

lemma inv_select_step: "inv_select p \<Longrightarrow> step e p = Some q \<Longrightarrow> inv_select q"
  unfolding inv_select_def
  by (cases e; clarsimp simp: step_simps split: step_splits; auto)

lemma inv_granted_step:
  "inv_granted p \<Longrightarrow> inv_select p \<Longrightarrow> inv_cand p \<Longrightarrow> step e p = Some q \<Longrightarrow> inv_granted q"
  unfolding inv_granted_def inv_select_def inv_cand_def
  by (cases e; clarsimp simp: step_simps split: step_splits; auto)

lemma cand_inj:
  "inv_cand p \<Longrightarrow> a < length (gheap p) \<Longrightarrow> b < length (gheap p) \<Longrightarrow>
   nextLease (gheap p ! a) = Some c \<Longrightarrow> nextLease (gheap p ! b) = Some c \<Longrightarrow> a = b"
  unfolding inv_cand_def by metis

lemma step_GSendD:
  assumes "step (GSend a) p = Some q"
  shows "a < length (gheap p)" "pc (gheap p ! a) = PSelect" "grant (gheap p ! a)"
    "q = p\<lparr>granted := granted p @ [nextLease (gheap p ! a)],
           gheap := (gheap p)[a := (gheap p ! a)\<lparr>pc := PGranted\<rparr>]\<rparr>"
  using assms by (auto simp: run_defs Let_def split: if_splits)

lemma inv_fresh_step:
  assumes "inv_fresh p" "inv_granted p" "inv_select p" "inv_cand p" "step e p = Some q"
  shows "inv_fresh q"
proof (cases e)
  case (GSend a)
  note d = step_GSendD [OF assms(5) [unfolded GSend]]
  obtain c where c: "nextLease (gheap p ! a) = Some c"
    using assms(3) d(1,2,3) unfolding inv_select_def by blast
  have other: "nextLease (gheap p ! b) \<noteq> Some c" if "b < length (gheap p)" "b \<noteq> a" for b
    using cand_inj [OF assms(4) that(1) d(1) _ c] that(2) by blast
  show ?thesis
    unfolding inv_fresh_def
  proof (intro conjI allI impI)
    fix l assume "l < length (lheap q)" "relOnce (lheap q ! l)"
    then show "Some l \<in> set (granted q)"
      using assms(1) unfolding inv_fresh_def by (simp add: d(4))
  next
    fix b c' assume b: "b < length (gheap q)" "nextLease (gheap q ! b) = Some c'"
    show "(Some c' \<in> set (granted q)) = (pc (gheap q ! b) = PGranted)"
    proof (cases "b = a")
      case True
      then show ?thesis using b c d(1) by (simp add: d(4))
    next
      case False
      then have "nextLease (gheap p ! b) = Some c'" "b < length (gheap p)"
        using b by (simp_all add: d(4))
      moreover from this have "c' \<noteq> c" using other False by blast
      ultimately show ?thesis
        using assms(1) False c unfolding inv_fresh_def by (simp add: d(4))
    qed
  qed
qed (use assms in \<open>unfold inv_fresh_def inv_granted_def inv_select_def inv_cand_def;
        clarsimp simp: step_simps split: step_splits; auto\<close>)+

lemma fresh_cand:
  "inv_fresh p \<Longrightarrow> a < length (gheap p) \<Longrightarrow> nextLease (gheap p ! a) = Some c \<Longrightarrow>
   (Some c \<in> set (granted p)) = (pc (gheap p ! a) = PGranted)"
  unfolding inv_fresh_def by simp

lemma fresh_rel:
  "inv_fresh p \<Longrightarrow> l < length (lheap p) \<Longrightarrow> relOnce (lheap p ! l) \<Longrightarrow> Some l \<in> set (granted p)"
  unfolding inv_fresh_def by simp

lemma cand_bound:
  "inv_cand p \<Longrightarrow> a < length (gheap p) \<Longrightarrow> nextLease (gheap p ! a) = Some c \<Longrightarrow>
   c < length (lheap p)"
  unfolding inv_cand_def by simp

lemma cand_group:
  "inv_cand p \<Longrightarrow> a < length (gheap p) \<Longrightarrow> nextLease (gheap p ! a) = Some c \<Longrightarrow>
   lease_group (lheap p ! c) = a"
  unfolding inv_cand_def by simp

lemma select_grant:
  "inv_select p \<Longrightarrow> a < length (gheap p) \<Longrightarrow>
   pc (gheap p ! a) = PSelect \<or> pc (gheap p ! a) = PGranted \<Longrightarrow>
   grant (gheap p ! a) = (Active (run_counts (gheap p ! a)) < Target (run_counts (gheap p ! a)))"
  unfolding inv_select_def by auto

lemma select_cand:
  "inv_select p \<Longrightarrow> a < length (gheap p) \<Longrightarrow>
   pc (gheap p ! a) = PSelect \<or> pc (gheap p ! a) = PGranted \<Longrightarrow> grant (gheap p ! a) \<Longrightarrow>
   \<exists>c. nextLease (gheap p ! a) = Some c"
  unfolding inv_select_def by auto

lemma select_granted:
  "inv_select p \<Longrightarrow> a < length (gheap p) \<Longrightarrow> pc (gheap p ! a) = PGranted \<Longrightarrow> grant (gheap p ! a)"
  unfolding inv_select_def by auto

subsection \<open>The order of grants\<close>

lemma lease_group_upd:
  "lease_group (ls[l := (ls ! l)\<lparr>relOnce := True\<rparr>] ! x) = lease_group (ls ! x)"
  by (cases "l < length ls"; cases "x = l"; simp add: list_update_beyond)

lemma granted_bound: "inv_granted p \<Longrightarrow> Some l \<in> set (granted p) \<Longrightarrow> l < length (lheap p)"
  unfolding inv_granted_def by auto

lemma granted_nth_bound:
  "inv_granted p \<Longrightarrow> i < length (granted p) \<Longrightarrow> granted p ! i = Some l \<Longrightarrow> l < length (lheap p)"
  using granted_bound nth_mem by metis

lemma step_GBranchD:
  assumes "step (GBranch a) p = Some q"
  shows "a < length (gheap p)" "pc (gheap p ! a) = PBranch"
    "granted q = granted p" "length (gheap q) = length (gheap p)"
    "\<And>b. b \<noteq> a \<Longrightarrow> gheap q ! b = gheap p ! b"
    "pc (gheap q ! a) = PSelect"
    "counts (gheap q ! a) = counts (gheap p ! a)"
    "run_counts (gheap q ! a) = run_counts (gheap p ! a)"
    "grant (gheap q ! a) = (Active (run_counts (gheap p ! a)) < Target (run_counts (gheap p ! a)))"
    "(nextLease (gheap q ! a) = nextLease (gheap p ! a) \<and> lheap q = lheap p \<and> leaseIDs q = leaseIDs p \<and>
        (nextLease (gheap p ! a) = None \<longrightarrow> \<not> Active (run_counts (gheap p ! a)) < Target (run_counts (gheap p ! a)))) \<or>
     (nextLease (gheap p ! a) = None \<and> Active (run_counts (gheap p ! a)) < Target (run_counts (gheap p ! a)) \<and>
        nextLease (gheap q ! a) = Some (length (lheap p)) \<and> leaseIDs q = leaseIDs p + 1 \<and>
        lheap q = lheap p @ [\<lparr>lease_group = a, lease_id = leaseIDs p + 1, relOnce = False\<rparr>])"
  using assms by (auto simp: run_defs Let_def split: if_splits option.splits)

lemma step_EReleaseD:
  assumes "step (ERelease l) p = Some q"
  shows "Some l \<in> set (granted p)" "q = Release p l"
  using assms by (auto split: if_splits)

lemma lease_id_upd:
  "lease_id (ls[l := (ls ! l)\<lparr>relOnce := True\<rparr>] ! x) = lease_id (ls ! x)"
  by (cases "l < length ls"; cases "x = l"; simp add: list_update_beyond)

lemma step_other_frame:
  assumes "step e p = Some q" "\<And>a. e \<noteq> GSend a" "\<And>a. e \<noteq> GBranch a"
  shows "granted q = granted p"
    and "length (lheap q) = length (lheap p)"
    and "lease_group (lheap q ! l) = lease_group (lheap p ! l)"
    and "lease_id (lheap q ! l) = lease_id (lheap p ! l)"
    and "leaseIDs q = leaseIDs p"
    and "length (gheap p) \<le> length (gheap q)"
    and "a < length (gheap q) \<Longrightarrow>
           (a < length (gheap p) \<and> nextLease (gheap q ! a) = nextLease (gheap p ! a)) \<or>
           nextLease (gheap q ! a) = None"
  using assms
  by (cases e; clarsimp simp: step_simps lease_group_upd lease_id_upd split: step_splits; auto)+

lemma order_sorted:
  "inv_order p \<Longrightarrow> i < j \<Longrightarrow> j < length (granted p) \<Longrightarrow> granted p ! i = Some l \<Longrightarrow>
   granted p ! j = Some m \<Longrightarrow> lease_group (lheap p ! l) = lease_group (lheap p ! m) \<Longrightarrow> l < m"
  unfolding inv_order_def by blast

lemma order_cand:
  "inv_order p \<Longrightarrow> a < length (gheap p) \<Longrightarrow> nextLease (gheap p ! a) = Some c \<Longrightarrow>
   Some l \<in> set (granted p) \<Longrightarrow> lease_group (lheap p ! l) = a \<Longrightarrow> l \<le> c"
  unfolding inv_order_def by blast

lemma order_frame:
  assumes "inv_order p" "granted q = granted p"
    and "\<And>l. lease_group (lheap q ! l) = lease_group (lheap p ! l)"
    and "\<And>a. a < length (gheap q) \<Longrightarrow>
           (a < length (gheap p) \<and> nextLease (gheap q ! a) = nextLease (gheap p ! a)) \<or>
           nextLease (gheap q ! a) = None"
  shows "inv_order q"
  unfolding inv_order_def
proof (intro conjI allI impI; (elim conjE)?)
  fix i j l m
  assume "i < j" "j < length (granted q)" "granted q ! i = Some l" "granted q ! j = Some m"
    "lease_group (lheap q ! l) = lease_group (lheap q ! m)"
  then show "l < m" using order_sorted [OF assms(1), of i j l m] by (simp add: assms(2,3))
next
  fix a c l
  assume h: "a < length (gheap q)" "nextLease (gheap q ! a) = Some c" "Some l \<in> set (granted q)"
    "lease_group (lheap q ! l) = a"
  then have "a < length (gheap p)" "nextLease (gheap p ! a) = Some c"
    using assms(4) [OF h(1)] by auto
  then show "l \<le> c" using order_cand [OF assms(1), of a c l] h(3,4) by (simp add: assms(2,3))
qed

lemma inv_order_step:
  assumes "inv_order p" "inv_fresh p" "inv_granted p" "inv_select p" "inv_cand p" "step e p = Some q"
  shows "inv_order q"
proof (cases e)
  case (GSend a)
  note d = step_GSendD [OF assms(6) [unfolded GSend]]
  obtain c where c: "nextLease (gheap p ! a) = Some c"
    using select_cand [OF assms(4) d(1) _ d(3)] d(2) by blast
  have cg: "lease_group (lheap p ! c) = a" using assms(5) d(1) c by (rule cand_group)
  have notin: "Some c \<notin> set (granted p)"
    using fresh_cand [OF assms(2) d(1) c] d(2) by simp
  have le: "l < c" if "Some l \<in> set (granted p)" "lease_group (lheap p ! l) = a" for l
  proof -
    have "l \<le> c" using assms(1) d(1) c that by (rule order_cand)
    moreover have "l \<noteq> c" using that(1) notin by auto
    ultimately show ?thesis by simp
  qed
  have q: "granted q = granted p @ [Some c]" "lheap q = lheap p" "length (gheap q) = length (gheap p)"
    using c by (simp_all add: d(4))
  show ?thesis
    unfolding inv_order_def
  proof (intro conjI allI impI; (elim conjE)?)
    fix i j l m
    assume h: "i < j" "j < length (granted q)" "granted q ! i = Some l" "granted q ! j = Some m"
      "lease_group (lheap q ! l) = lease_group (lheap q ! m)"
    show "l < m"
    proof (cases "j < length (granted p)")
      case True
      then have "granted p ! i = Some l" "granted p ! j = Some m"
        using h(1,3,4) by (simp_all add: q nth_append)
      then show ?thesis using order_sorted [OF assms(1) h(1) True] h(5) by (simp add: q)
    next
      case False
      then have j: "j = length (granted p)" and m: "m = c" using h(2,4) by (auto simp: q nth_append)
      then have "granted p ! i = Some l" "i < length (granted p)" using h(1,3) by (auto simp: q nth_append)
      then have "Some l \<in> set (granted p)" using nth_mem by metis
      then show ?thesis using le h(5) cg m by (simp add: q)
    qed
  next
    fix b c' l
    assume h: "b < length (gheap q)" "nextLease (gheap q ! b) = Some c'" "Some l \<in> set (granted q)"
      "lease_group (lheap q ! l) = b"
    show "l \<le> c'"
    proof (cases "b = a")
      case True
      then have "c' = c" using h(1,2) c d(1) by (simp add: d(4))
      moreover have "l = c \<or> l < c" using h(3,4) le True by (auto simp: q)
      ultimately show ?thesis by auto
    next
      case False
      then have "nextLease (gheap p ! b) = Some c'" "b < length (gheap p)"
        using h(1,2) by (simp_all add: d(4))
      moreover have "Some l \<in> set (granted p)" using h(3,4) False cg by (auto simp: q)
      ultimately show ?thesis using order_cand [OF assms(1)] h(4) by (simp add: q)
    qed
  qed
next
  case (GBranch a)
  note d = step_GBranchD [OF assms(6) [unfolded GBranch]]
  have lh: "l < length (lheap p) \<Longrightarrow> lheap q ! l = lheap p ! l" for l
    using d(10) by (auto simp: nth_append)
  have gb: "Some l \<in> set (granted p) \<Longrightarrow> l < length (lheap p)" for l
    using assms(3) by (rule granted_bound)
  show ?thesis
    unfolding inv_order_def
  proof (intro conjI allI impI; (elim conjE)?)
    fix i j l m
    assume h: "i < j" "j < length (granted q)" "granted q ! i = Some l" "granted q ! j = Some m"
      "lease_group (lheap q ! l) = lease_group (lheap q ! m)"
    have "i < length (granted p)" "j < length (granted p)" "granted p ! i = Some l"
      "granted p ! j = Some m" using h by (simp_all add: d(3))
    then have "l < length (lheap p)" "m < length (lheap p)"
      using granted_nth_bound [OF assms(3)] by blast+
    then show "l < m" using order_sorted [OF assms(1) h(1), of l m] h(2,3,4,5) lh by (simp add: d(3))
  next
    fix b c l
    assume h: "b < length (gheap q)" "nextLease (gheap q ! b) = Some c" "Some l \<in> set (granted q)"
      "lease_group (lheap q ! l) = b"
    then have l: "l < length (lheap p)" "Some l \<in> set (granted p)" "lease_group (lheap p ! l) = b"
      using gb lh by (auto simp: d(3))
    show "l \<le> c"
    proof (cases "b = a")
      case True
      show ?thesis
      proof (cases "nextLease (gheap p ! a)")
        case None
        then have "c = length (lheap p)" using d(10) h(2) True by auto
        then show ?thesis using l(1) by simp
      next
        case (Some c0)
        then have "c = c0" using d(10) h(2) True by auto
        then show ?thesis using order_cand [OF assms(1) d(1) Some l(2)] l(3) True by simp
      qed
    next
      case False
      then have "nextLease (gheap p ! b) = Some c" "b < length (gheap p)"
        using d(5) [OF False] h(1,2) by (simp_all add: d(4))
      then show ?thesis using order_cand [OF assms(1) _ _ l(2,3)] by simp
    qed
  qed
qed (rule order_frame [OF assms(1) step_other_frame(1,3,7) [OF assms(6)]]; simp)+

subsection \<open>Counting the outstanding leases\<close>

lemma count_ok_cancel: "count_ok g n \<Longrightarrow> count_ok (g\<lparr>cancelled := True\<rparr>) n"
  by (simp add: count_ok_def)

lemma count_ok_SetTarget: "count_ok g n \<Longrightarrow> count_ok (SetTarget g t) n"
  by (simp add: count_ok_def group_defs split: option.splits)

lemma count_ok_load:
  "pc g = PLoad \<Longrightarrow> count_ok g n \<Longrightarrow> count_ok (g\<lparr>run_counts := loadCounts g, pc := PBranch\<rparr>) n"
  by (simp add: count_ok_def loadCounts_def)

lemma count_ok_branch:
  "pc g = PBranch \<Longrightarrow> count_ok g n \<Longrightarrow> pc g' = PSelect \<Longrightarrow> counts g' = counts g \<Longrightarrow>
   run_counts g' = run_counts g \<Longrightarrow> count_ok g' n"
  by (simp add: count_ok_def)

lemma count_ok_send:
  assumes "pc g = PSelect" "count_ok g n"
  shows "count_ok (g\<lparr>pc := PGranted\<rparr>) (Suc n)"
proof -
  have a: "unat (Active (counts g)) = n" "Active (counts g) \<le> Active (run_counts g)"
    using assms by (simp_all add: count_ok_def)
  have "Active (counts g) + 1 = of_nat (Suc n)"
    by (simp add: a(1) [symmetric])
  moreover have "Suc n \<le> Suc (unat (Active (run_counts g)))"
    using a by (simp add: word_le_nat_alt)
  ultimately show ?thesis by (simp add: count_ok_def)
qed

lemma count_ok_granted:
  assumes "pc g = PGranted" "count_ok g n" "Active (run_counts g) < Target (run_counts g)"
  shows "count_ok ((incrActive g)\<lparr>nextLease := None, pc := PLoad\<rparr>) n"
proof -
  have a: "Active (counts g) + 1 = of_nat n" "n \<le> Suc (unat (Active (run_counts g)))"
    using assms(1,2) by (simp_all add: count_ok_def)
  have "unat (Active (run_counts g)) < unat (Target (run_counts g))"
    using assms(3) by (simp add: word_less_nat_alt)
  moreover have "unat (Target (run_counts g)) < 2 ^ 64"
    using unsigned_less [of "Target (run_counts g)", where 'a = nat] by simp
  ultimately have "n < 2 ^ LENGTH(64)" using a(2) by simp
  then have "unat (Active (counts g) + 1) = n" by (rule of_nat_inverse [OF a(1) [symmetric]])
  then show ?thesis by (simp add: count_ok_def group_defs split: option.splits)
qed

lemma count_ok_wake:
  "pc g = PSelect \<Longrightarrow> count_ok g n \<Longrightarrow> pc g' \<noteq> PGranted \<Longrightarrow> pc g' \<noteq> PBranch \<Longrightarrow>
   pc g' \<noteq> PSelect \<Longrightarrow> counts g' = counts g \<Longrightarrow> count_ok g' n"
  by (simp add: count_ok_def)

lemma count_ok_release:
  assumes "count_ok g (Suc n)"
  shows "count_ok (decrActive g) n"
proof (cases "pc g = PGranted")
  case True
  then have a: "Active (counts g) + 1 = of_nat (Suc n)" "Suc n \<le> Suc (unat (Active (run_counts g)))"
    using assms by (simp_all add: count_ok_def)
  have "Active (counts g) - 1 + 1 = of_nat n" using a(1) by simp
  then show ?thesis using True a(2)
    by (simp add: count_ok_def group_defs split: option.splits)
next
  case False
  then have a: "unat (Active (counts g)) = Suc n" using assms by (simp add: count_ok_def)
  then have nz: "Active (counts g) \<noteq> 0" by (metis Zero_not_Suc unat_0)
  have u: "unat (Active (counts g) - 1) = n" using a nz by (simp add: unat_minus_one)
  have "Active (counts g) - 1 \<le> Active (run_counts g)"
    if "Active (counts g) \<le> Active (run_counts g)"
    using that u a by (simp add: word_le_nat_alt)
  then show ?thesis using False u assms
    by (auto simp: count_ok_def group_defs split: option.splits)
qed

lemma filter_remove_one:
  "distinct xs \<Longrightarrow> y \<in> set xs \<Longrightarrow> P y \<Longrightarrow>
   Suc (length (filter (\<lambda>x. P x \<and> x \<noteq> y) xs)) = length (filter P xs)"
proof (induction xs)
  case Nil
  then show ?case by simp
next
  case (Cons x xs)
  show ?case
  proof (cases "x = y")
    case True
    then have "y \<notin> set xs" using Cons.prems(1) by simp
    then have "filter (\<lambda>x. P x \<and> x \<noteq> y) xs = filter P xs"
      by (intro filter_cong) auto
    then show ?thesis using True Cons.prems(3) by simp
  next
    case False
    then show ?thesis using Cons by auto
  qed
qed

lemma held_release:
  assumes "l < length ls"
  shows "held (ls[l := (ls ! l)\<lparr>relOnce := True\<rparr>]) a x =
         (held ls a x \<and> x \<noteq> Some l)"
proof (cases x)
  case None
  then show ?thesis by (simp add: held_def)
next
  case (Some m)
  then show ?thesis using assms by (cases "m = l") (simp_all add: held_def)
qed

lemma outstanding_release:
  assumes "distinct (granted p)" "Some l \<in> set (granted p)" "l < length (lheap p)"
    "\<not> relOnce (lheap p ! l)" "granted q = granted p"
    "lheap q = (lheap p)[l := (lheap p ! l)\<lparr>relOnce := True\<rparr>]"
  shows "lease_group (lheap p ! l) = a \<Longrightarrow> Suc (outstanding q a) = outstanding p a"
    and "lease_group (lheap p ! l) \<noteq> a \<Longrightarrow> outstanding q a = outstanding p a"
proof -
  have "held (lheap q) a = (\<lambda>x. held (lheap p) a x \<and> x \<noteq> Some l)"
    unfolding assms(6) by (rule ext) (rule held_release [OF assms(3)])
  then have q: "outstanding q a = length (filter (\<lambda>x. held (lheap p) a x \<and> x \<noteq> Some l) (granted p))"
    by (simp add: outstanding_def assms(5))
  { assume "lease_group (lheap p ! l) = a"
    then have "held (lheap p) a (Some l)" using assms(4) by (simp add: held_def)
    then show "Suc (outstanding q a) = outstanding p a"
      using filter_remove_one [OF assms(1,2), of "held (lheap p) a"] q
      by (simp add: outstanding_def) }
  { assume "lease_group (lheap p ! l) \<noteq> a"
    then have "\<not> held (lheap p) a (Some l)" by (simp add: held_def)
    then have "filter (\<lambda>x. held (lheap p) a x \<and> x \<noteq> Some l) (granted p) =
               filter (held (lheap p) a) (granted p)"
      by (intro filter_cong) auto
    then show "outstanding q a = outstanding p a" using q by (simp add: outstanding_def) }
qed

lemma outstanding_cong:
  assumes "granted q = granted p"
    and "\<And>l. Some l \<in> set (granted p) \<Longrightarrow> lheap q ! l = lheap p ! l"
  shows "outstanding q a = outstanding p a"
proof -
  have "filter (held (lheap q) a) (granted p) = filter (held (lheap p) a) (granted p)"
    using assms(2) by (intro filter_cong) (auto simp: held_def split: option.splits)
  then show ?thesis by (simp add: outstanding_def assms(1))
qed

lemma outstanding_send:
  assumes "granted q = granted p @ [Some c]" "lheap q = lheap p"
  shows "outstanding q a =
         outstanding p a + (if lease_group (lheap p ! c) = a \<and> \<not> relOnce (lheap p ! c) then 1 else 0)"
  by (simp add: outstanding_def assms held_def)

lemma outstanding_none:
  assumes "\<And>l. Some l \<in> set (granted p) \<Longrightarrow> lease_group (lheap p ! l) \<noteq> a"
  shows "outstanding p a = 0"
proof -
  have "filter (held (lheap p) a) (granted p) = []"
    using assms by (auto simp: filter_empty_conv held_def split: option.splits)
  then show ?thesis by (simp add: outstanding_def)
qed

lemma granted_distinct:
  assumes "inv_order p" "inv_granted p"
  shows "distinct (granted p)"
  unfolding distinct_conv_nth
proof (intro allI impI)
  fix i j assume h: "i < length (granted p)" "j < length (granted p)" "i \<noteq> j"
  obtain l where l: "granted p ! i = Some l"
    using assms(2) h(1) nth_mem unfolding inv_granted_def by blast
  show "granted p ! i \<noteq> granted p ! j"
  proof
    assume e: "granted p ! i = granted p ! j"
    then have j: "granted p ! j = Some l" using l by simp
    consider "i < j" | "j < i" using h(3) by linarith
    then show False
    proof cases
      case 1
      then show ?thesis using order_sorted [OF assms(1) 1 h(2) l j] by simp
    next
      case 2
      then show ?thesis using order_sorted [OF assms(1) 2 h(1) j l] by simp
    qed
  qed
qed

lemma step_GLoadD:
  assumes "step (GLoad a) p = Some q"
  shows "a < length (gheap p)" "pc (gheap p ! a) = PLoad"
    "q = p\<lparr>gheap := (gheap p)[a := (gheap p ! a)\<lparr>run_counts := loadCounts (gheap p ! a), pc := PBranch\<rparr>]\<rparr>"
  using assms by (auto simp: run_defs Let_def split: if_splits)

lemma step_GGrantedD:
  assumes "step (GGranted a) p = Some q"
  shows "a < length (gheap p)" "pc (gheap p ! a) = PGranted"
    "q = p\<lparr>gheap := (gheap p)[a := (incrActive (gheap p ! a))\<lparr>nextLease := None, pc := PLoad\<rparr>]\<rparr>"
  using assms by (auto simp: run_defs Let_def split: if_splits)

lemma step_GNotifiedD:
  assumes "step (GNotified a) p = Some q"
  shows "a < length (gheap p)" "pc (gheap p ! a) = PSelect"
    "\<exists>n. notifyC (gheap p ! a) = Suc n \<and>
         q = p\<lparr>gheap := (gheap p)[a := (gheap p ! a)\<lparr>notifyC := n, pc := PLoad\<rparr>]\<rparr>"
  using assms by (auto simp: run_defs chan_recv_def Let_def split: if_splits nat.splits)

lemma step_GDoneD:
  assumes "step (GDone a) p = Some q"
  shows "a < length (gheap p)" "pc (gheap p ! a) = PSelect" "group_done p (gheap p ! a)"
    "q = p\<lparr>gheap := (gheap p)[a := (gheap p ! a)\<lparr>pc := PExit\<rparr>]\<rparr>"
  using assms by (auto simp: run_defs Let_def split: if_splits)

lemma count_okD:
  "inv_count p \<Longrightarrow> a < length (gheap p) \<Longrightarrow> count_ok (gheap p ! a) (outstanding p a)"
  unfolding inv_count_def by simp

lemma count_frame_upd:
  assumes "inv_count p" "granted q = granted p"
    and "\<And>l. Some l \<in> set (granted p) \<Longrightarrow> lheap q ! l = lheap p ! l"
    and "gheap q = (gheap p)[b := g']"
    and "\<And>n. b < length (gheap p) \<Longrightarrow> count_ok (gheap p ! b) n \<Longrightarrow> count_ok g' n"
  shows "inv_count q"
  unfolding inv_count_def
proof (intro allI impI)
  fix a assume a: "a < length (gheap q)"
  then have a': "a < length (gheap p)" by (simp add: assms(4))
  have o: "outstanding q a = outstanding p a" using assms(2,3) by (rule outstanding_cong)
  show "count_ok (gheap q ! a) (outstanding q a)"
    using count_okD [OF assms(1) a'] assms(5) a' unfolding o assms(4)
    by (cases "a = b") simp_all
qed

lemma inv_count_step:
  assumes "inv_count p" "inv_order p" "inv_fresh p" "inv_granted p" "inv_select p" "inv_cand p"
    "inv_lease p" "step e p = Some q"
  shows "inv_count q"
proof (cases e)
  case (GLoad a)
  note d = step_GLoadD [OF assms(8) [unfolded GLoad]]
  show ?thesis
    by (rule count_frame_upd [OF assms(1), where b = a and
          g' = "(gheap p ! a)\<lparr>run_counts := loadCounts (gheap p ! a), pc := PBranch\<rparr>"])
       (simp_all add: d(3) d(2) count_ok_load)
next
  case (GNotified a)
  note d = step_GNotifiedD [OF assms(8) [unfolded GNotified]]
  then obtain n where q: "q = p\<lparr>gheap := (gheap p)[a := (gheap p ! a)\<lparr>notifyC := n, pc := PLoad\<rparr>]\<rparr>"
    by blast
  show ?thesis
    by (rule count_frame_upd [OF assms(1), where b = a and
          g' = "(gheap p ! a)\<lparr>notifyC := n, pc := PLoad\<rparr>"])
       (simp_all add: q, rule count_ok_wake [OF d(2)], simp_all)
next
  case (GDone a)
  note d = step_GDoneD [OF assms(8) [unfolded GDone]]
  show ?thesis
    by (rule count_frame_upd [OF assms(1), where b = a and g' = "(gheap p ! a)\<lparr>pc := PExit\<rparr>"])
       (simp_all add: d(4), rule count_ok_wake [OF d(2)], simp_all)
next
  case (GGranted a)
  note d = step_GGrantedD [OF assms(8) [unfolded GGranted]]
  have lt: "Active (run_counts (gheap p ! a)) < Target (run_counts (gheap p ! a))"
    using select_grant [OF assms(5) d(1)] select_granted [OF assms(5) d(1) d(2)] d(2) by simp
  show ?thesis
    by (rule count_frame_upd [OF assms(1), where b = a and
          g' = "(incrActive (gheap p ! a))\<lparr>nextLease := None, pc := PLoad\<rparr>"])
       (simp_all add: d(3) count_ok_granted [OF d(2) _ lt])
next
  case (GBranch a)
  note d = step_GBranchD [OF assms(8) [unfolded GBranch]]
  have lh: "lheap q ! l = lheap p ! l" if "Some l \<in> set (granted p)" for l
    using d(10) granted_bound [OF assms(4) that] by (auto simp: nth_append)
  have gh: "gheap q = (gheap p)[a := gheap q ! a]"
    by (rule nth_equalityI) (use d(1,4,5) in \<open>auto simp: nth_upd\<close>)
  show ?thesis
    by (rule count_frame_upd [OF assms(1) d(3) lh gh])
       (simp, rule count_ok_branch [OF d(2) _ d(6,7,8)])
next
  case (GSend a)
  note d = step_GSendD [OF assms(8) [unfolded GSend]]
  obtain c where c: "nextLease (gheap p ! a) = Some c"
    using select_cand [OF assms(5) d(1) _ d(3)] d(2) by blast
  have cg: "lease_group (lheap p ! c) = a" using assms(6) d(1) c by (rule cand_group)
  have cb: "c < length (lheap p)" using assms(6) d(1) c by (rule cand_bound)
  have notin: "Some c \<notin> set (granted p)"
    using fresh_cand [OF assms(3) d(1) c] d(2) by simp
  then have nr: "\<not> relOnce (lheap p ! c)" using fresh_rel [OF assms(3) cb] by blast
  have q: "granted q = granted p @ [Some c]" "lheap q = lheap p" "length (gheap q) = length (gheap p)"
    "gheap q = (gheap p)[a := (gheap p ! a)\<lparr>pc := PGranted\<rparr>]"
    using c by (simp_all add: d(4))
  have o: "outstanding q b = (if b = a then Suc (outstanding p b) else outstanding p b)" for b
    using outstanding_send [OF q(1,2), of b] cg nr by auto
  have lt: "Active (run_counts (gheap p ! a)) < Target (run_counts (gheap p ! a))"
    using select_grant [OF assms(5) d(1)] d(2,3) by simp
  show ?thesis
    unfolding inv_count_def
  proof (intro allI impI)
    fix b assume "b < length (gheap q)"
    then have b: "b < length (gheap p)" by (simp add: q)
    show "count_ok (gheap q ! b) (outstanding q b)"
    proof (cases "b = a")
      case True
      then show ?thesis
        using count_ok_send [OF d(2) count_okD [OF assms(1) d(1)]] d(1) by (simp add: o q(4))
    next
      case False
      then show ?thesis using count_okD [OF assms(1) b] by (simp add: o q(4))
    qed
  qed
next
  case (ERelease l)
  note d = step_EReleaseD [OF assms(8) [unfolded ERelease]]
  have lb: "l < length (lheap p)" using assms(4) d(1) by (rule granted_bound)
  show ?thesis
  proof (cases "relOnce (lheap p ! l)")
    case True
    then have "q = p" by (simp add: d(2) Release_def Let_def)
    then show ?thesis using assms(1) by simp
  next
    case False
    define a where "a = lease_group (lheap p ! l)"
    have ab: "a < length (gheap p)" using assms(7) lb unfolding inv_lease_def a_def by simp
    have q: "granted q = granted p" "lheap q = (lheap p)[l := (lheap p ! l)\<lparr>relOnce := True\<rparr>]"
      "gheap q = (gheap p)[a := decrActive (gheap p ! a)]"
      using False by (simp_all add: d(2) Release_def a_def Let_def)
    note o = outstanding_release [OF granted_distinct [OF assms(2,4)] d(1) lb False q(1,2)]
    show ?thesis
      unfolding inv_count_def
    proof (intro allI impI)
      fix b assume "b < length (gheap q)"
      then have b: "b < length (gheap p)" by (simp add: q)
      show "count_ok (gheap q ! b) (outstanding q b)"
      proof (cases "b = a")
        case True
        have "count_ok (gheap p ! a) (Suc (outstanding q a))"
          using count_okD [OF assms(1) ab] o(1) [of a] by (simp add: a_def)
        then show ?thesis using True ab count_ok_release by (simp add: q(3))
      next
        case False
        then have "outstanding q b = outstanding p b" using o(2) [of b] by (simp add: a_def)
        then show ?thesis using count_okD [OF assms(1) b] False by (simp add: q(3))
      qed
    qed
  qed
next
  case (ESet k t)
  then have q: "q = Set p k t" using assms(8) by simp
  show ?thesis
  proof (cases "groups p k")
    case None
    show ?thesis
    proof (cases "t < 1")
      case True
      then show ?thesis using None assms(1) by (simp add: q pool_defs)
    next
      case False
      then have s: "q = start p k t" using None by (simp add: q Set_def)
      have z: "outstanding q (length (gheap p)) = 0"
      proof (rule outstanding_none)
        fix l assume "Some l \<in> set (granted q)"
        then have "l < length (lheap p)" using granted_bound [OF assms(4)] by (simp add: s start_def)
        then have "lease_group (lheap p ! l) < length (gheap p)"
          using assms(7) unfolding inv_lease_def by simp
        then show "lease_group (lheap q ! l) \<noteq> length (gheap p)" by (simp add: s start_def)
      qed
      have o: "outstanding q a = outstanding p a" for a
        by (rule outstanding_cong) (simp_all add: s start_def)
      show ?thesis
        unfolding inv_count_def
      proof (intro allI impI)
        fix a assume a: "a < length (gheap q)"
        show "count_ok (gheap q ! a) (outstanding q a)"
        proof (cases "a < length (gheap p)")
          case True
          then show ?thesis using count_okD [OF assms(1) True] by (simp add: o) (simp add: s start_def nth_append)
        next
          case False
          then have "a = length (gheap p)" using a by (simp add: s start_def)
          then show ?thesis using z by (simp add: s start_def count_ok_def)
        qed
      qed
    qed
  next
    case (Some b)
    show ?thesis
    proof (cases "t < 1")
      case True
      show ?thesis
        by (rule count_frame_upd [OF assms(1), where b = b and
              g' = "(gheap p ! b)\<lparr>cancelled := True\<rparr>"])
           (use True Some in \<open>simp_all add: q pool_defs count_ok_cancel\<close>)
    next
      case False
      show ?thesis
        by (rule count_frame_upd [OF assms(1), where b = b and g' = "SetTarget (gheap p ! b) t"])
           (use False Some in \<open>simp_all add: q pool_defs count_ok_SetTarget\<close>)
    qed
  qed
qed (use assms in \<open>auto simp: inv_count_def outstanding_def Stop_def Get_def split: option.splits\<close>)

subsection \<open>All invariants hold in the reachable states\<close>

lemma inv_all_NewPool: "inv_all NewPool"
  by (simp add: inv_all_def inv_registry_def inv_notify_def inv_lease_def inv_cand_def
        inv_select_def inv_granted_def inv_fresh_def inv_order_def inv_count_def NewPool_def)

lemma inv_all_step:
  assumes "inv_all p" "step e p = Some q"
  shows "inv_all q"
proof -
  note i = assms(1) [unfolded inv_all_def]
  have "inv_registry q" using i assms(2) by (blast intro: inv_registry_step)
  moreover have "inv_notify q" using i assms(2) by (blast intro: inv_notify_step)
  moreover have "inv_lease q" using i assms(2) by (blast intro: inv_lease_step)
  moreover have "inv_cand q" using i assms(2) by (blast intro: inv_cand_step)
  moreover have "inv_select q" using i assms(2) by (blast intro: inv_select_step)
  moreover have "inv_granted q" using i assms(2) by (blast intro: inv_granted_step)
  moreover have "inv_fresh q" using i assms(2) by (blast intro: inv_fresh_step)
  moreover have "inv_order q" using i assms(2) by (blast intro: inv_order_step)
  moreover have "inv_count q" using i assms(2) by (blast intro: inv_count_step)
  ultimately show ?thesis by (simp add: inv_all_def)
qed

lemma reachable_inv_all: "reachable p \<Longrightarrow> inv_all p"
  by (rule reachable_invariant [where P = inv_all]) (auto intro: inv_all_NewPool inv_all_step)

lemma reachable_exec: "reachable p \<Longrightarrow> exec es p = Some q \<Longrightarrow> reachable q"
  unfolding reachable_def
proof (elim exE)
  fix fs assume "exec es p = Some q" "exec fs NewPool = Some p"
  then have "exec (fs @ es) NewPool = Some q" by (simp add: exec_append)
  then show "\<exists>es. exec es NewPool = Some q" by blast
qed

subsection \<open>A group that is not offering\<close>

lemma step_locals_other:
  assumes "step e p = Some q" "a < length (gheap p)"
    "e \<noteq> GLoad a" "e \<noteq> GBranch a" "e \<noteq> GSend a" "e \<noteq> GGranted a" "e \<noteq> GNotified a" "e \<noteq> GDone a"
  shows "a < length (gheap q)" "pc (gheap q ! a) = pc (gheap p ! a)"
    "run_counts (gheap q ! a) = run_counts (gheap p ! a)"
    "grant (gheap q ! a) = grant (gheap p ! a)"
    "nextLease (gheap q ! a) = nextLease (gheap p ! a)"
  using assms
  by (cases e; clarsimp simp: step_simps split: step_splits)+

lemma idle_step:
  assumes "step e p = Some q" "a < length (gheap p)" "\<not> offering (gheap p ! a)"
    "Target (counts (gheap p ! a)) \<le> Active (counts (gheap p ! a))"
  shows "\<not> offering (gheap q ! a)" "e \<noteq> GSend a" "a < length (gheap q)"
proof -
  have n: "\<not> Active (counts (gheap p ! a)) < Target (counts (gheap p ! a))"
    using assms(4) by (simp add: not_less)
  consider "e = GLoad a" | "e = GBranch a" | "e = GSend a" | "e = GGranted a" | "e = GNotified a"
    | "e = GDone a"
    | "e \<noteq> GLoad a" "e \<noteq> GBranch a" "e \<noteq> GSend a" "e \<noteq> GGranted a" "e \<noteq> GNotified a" "e \<noteq> GDone a"
    by blast
  then have "\<not> offering (gheap q ! a) \<and> e \<noteq> GSend a \<and> a < length (gheap q)"
  proof cases
    case 1
    note d = step_GLoadD [OF assms(1) [unfolded 1]]
    show ?thesis using n assms(2) by (simp add: 1 d(3) offering_def loadCounts_def)
  next
    case 2
    note d = step_GBranchD [OF assms(1) [unfolded 2]]
    have "\<not> Active (run_counts (gheap p ! a)) < Target (run_counts (gheap p ! a))"
      using assms(3) d(2) by (simp add: offering_def)
    then show ?thesis using d(4,6,9) assms(2) by (simp add: 2 offering_def)
  next
    case 3
    note d = step_GSendD [OF assms(1) [unfolded 3]]
    show ?thesis using assms(3) d(2,3) by (simp add: offering_def)
  next
    case 4
    note d = step_GGrantedD [OF assms(1) [unfolded 4]]
    show ?thesis using assms(3) d(2) by (simp add: offering_def)
  next
    case 5
    note d = step_GNotifiedD [OF assms(1) [unfolded 5]]
    show ?thesis using d(3) assms(2) by (auto simp: 5 offering_def)
  next
    case 6
    note d = step_GDoneD [OF assms(1) [unfolded 6]]
    show ?thesis using assms(2) by (simp add: 6 d(4) offering_def)
  next
    case 7
    note d = step_locals_other [OF assms(1,2) 7]
    show ?thesis using assms(3) d 7(3) by (simp add: offering_def)
  qed
  then show "\<not> offering (gheap q ! a)" "e \<noteq> GSend a" "a < length (gheap q)" by simp_all
qed

lemma idle_exec:
  assumes "exec es p = Some q" "a < length (gheap p)" "\<not> offering (gheap p ! a)"
    and "\<And>n r. exec (take n es) p = Some r \<Longrightarrow>
           Target (counts (gheap r ! a)) \<le> Active (counts (gheap r ! a))"
  shows "GSend a \<notin> set es"
  using assms
proof (induction es arbitrary: p)
  case Nil
  then show ?case by simp
next
  case (Cons e es)
  from Cons.prems(1) obtain p' where s: "step e p = Some p'" and x: "exec es p' = Some q"
    by (auto split: option.splits)
  have t: "Target (counts (gheap p ! a)) \<le> Active (counts (gheap p ! a))"
    using Cons.prems(4) [of 0 p] by simp
  note i = idle_step [OF s Cons.prems(2,3) t]
  have "Target (counts (gheap r ! a)) \<le> Active (counts (gheap r ! a))"
    if "exec (take n es) p' = Some r" for n r
    using Cons.prems(4) [of "Suc n" r] that s by simp
  then have "GSend a \<notin> set es" using Cons.IH [OF x i(3) i(1)] by blast
  then show ?case using i(2) by simp
qed

lemma Active_wraps_in_grant_window:
  "counts_after window_run ''a'' = Some \<lparr>Target = 1, Active = 18446744073709551615\<rparr>"
  by (simp add: counts_after_def window_run_def exec_defs)

subsection \<open>Release and delete\<close>

lemma lease_bound:
  "inv_lease p \<Longrightarrow> l < length (lheap p) \<Longrightarrow> lease_group (lheap p ! l) < length (gheap p)"
  unfolding inv_lease_def by simp

lemma Release_done: "relOnce (lheap p ! l) \<Longrightarrow> Release p l = p"
  by (simp add: Release_def Let_def)

lemma Release_first:
  assumes "\<not> relOnce (lheap p ! l)" "l < length (lheap p)" "lease_group (lheap p ! l) = a"
    "a < length (gheap p)"
  shows "granted (Release p l) = granted p"
    and "lheap (Release p l) = (lheap p)[l := (lheap p ! l)\<lparr>relOnce := True\<rparr>]"
    and "gheap (Release p l) = (gheap p)[a := decrActive (gheap p ! a)]"
    and "groups (Release p l) = groups p"
    and "leaseIDs (Release p l) = leaseIDs p"
    and "ctx_done (Release p l) = ctx_done p"
    and "relOnce (lheap (Release p l) ! l)"
    and "counts (gheap (Release p l) ! a) =
           (counts (gheap p ! a))\<lparr>Active := Active (counts (gheap p ! a)) - 1\<rparr>"
    and "cancelled (gheap (Release p l) ! a) = cancelled (gheap p ! a)"
  using assms by (simp_all add: Release_def Let_def group_defs split: option.splits)

lemma Release_funpow:
  assumes "Release q l = q"
  shows "((\<lambda>s. Release s l) ^^ n) q = q"
  by (induction n) (simp_all add: assms)

lemma Set_zero_deletes:
  assumes "groups p k = Some a" "a < length (gheap p)"
  shows "groups (Set p k 0) k = None"
    and "gheap (Set p k 0) = (gheap p)[a := (gheap p ! a)\<lparr>cancelled := True\<rparr>]"
    and "lheap (Set p k 0) = lheap p" and "granted (Set p k 0) = granted p"
    and "cancelled (gheap (Set p k 0) ! a)"
    and "counts (gheap (Set p k 0) ! a) = counts (gheap p ! a)"
  using assms by (simp_all add: Set_def del_def)

subsection \<open>Ids\<close>

lemma lease_idD:
  "inv_lease p \<Longrightarrow> l < length (lheap p) \<Longrightarrow> lease_id (lheap p ! l) = of_nat (Suc l)"
  unfolding inv_lease_def by simp

lemma lease_id_unat:
  assumes "inv_lease p" "l < length (lheap p)" "length (lheap p) < 2 ^ 64"
  shows "unat (lease_id (lheap p ! l)) = Suc l"
proof -
  have "Suc l < 2 ^ LENGTH(64)" using assms(2,3) by simp
  then show ?thesis using lease_idD [OF assms(1,2)] by (simp add: of_nat_inverse)
qed

lemma lease_kept:
  assumes "step e p = Some q" "c < length (lheap p)"
  shows "lease_id (lheap q ! c) = lease_id (lheap p ! c)"
    and "lease_group (lheap q ! c) = lease_group (lheap p ! c)"
    and "c < length (lheap q)"
proof -
  consider b where "e = GBranch b" | b where "e = GSend b"
    | "\<And>a. e \<noteq> GSend a" "\<And>a. e \<noteq> GBranch a"
    by blast
  then have "lease_id (lheap q ! c) = lease_id (lheap p ! c) \<and>
             lease_group (lheap q ! c) = lease_group (lheap p ! c) \<and> c < length (lheap q)"
  proof cases
    case 1
    note f = step_GBranchD [OF assms(1) [unfolded 1]]
    show ?thesis using f(10) assms(2) by (auto simp: nth_append)
  next
    case 2
    note f = step_GSendD [OF assms(1) [unfolded 2]]
    show ?thesis using assms(2) by (simp add: f(4))
  next
    case 3
    show ?thesis using step_other_frame(2,3,4) [OF assms(1) 3] assms(2) by simp
  qed
  then show "lease_id (lheap q ! c) = lease_id (lheap p ! c)"
    and "lease_group (lheap q ! c) = lease_group (lheap p ! c)"
    and "c < length (lheap q)" by simp_all
qed

lemma candidate_kept:
  assumes "inv_cand p" "step e p = Some q" "a < length (gheap p)"
    "nextLease (gheap p ! a) = Some c" "e \<noteq> GGranted a"
  shows "nextLease (gheap q ! a) = Some c" "lease_id (lheap q ! c) = lease_id (lheap p ! c)"
proof -
  have cb: "c < length (lheap p)" using assms(1,3,4) by (rule cand_bound)
  consider "e = GLoad a" | "e = GBranch a" | "e = GSend a" | "e = GNotified a" | "e = GDone a"
    | "e \<noteq> GLoad a" "e \<noteq> GBranch a" "e \<noteq> GSend a" "e \<noteq> GGranted a" "e \<noteq> GNotified a" "e \<noteq> GDone a"
    using assms(5) by blast
  then have "nextLease (gheap q ! a) = Some c \<and> lease_id (lheap q ! c) = lease_id (lheap p ! c)"
  proof cases
    case 1
    note d = step_GLoadD [OF assms(2) [unfolded 1]]
    show ?thesis using assms(3,4) by (simp add: d(3))
  next
    case 2
    note d = step_GBranchD [OF assms(2) [unfolded 2]]
    show ?thesis using d(10) assms(4) by auto
  next
    case 3
    note d = step_GSendD [OF assms(2) [unfolded 3]]
    show ?thesis using assms(3,4) by (simp add: d(4))
  next
    case 4
    note d = step_GNotifiedD [OF assms(2) [unfolded 4]]
    show ?thesis using assms(3,4) d(3) by auto
  next
    case 5
    note d = step_GDoneD [OF assms(2) [unfolded 5]]
    show ?thesis using assms(3,4) by (simp add: d(4))
  next
    case 6
    note d = step_locals_other [OF assms(2,3) 6]
    have "lease_id (lheap q ! c) = lease_id (lheap p ! c)"
      using assms(2) cb by (rule lease_kept)
    then show ?thesis using d(5) assms(4) by simp
  qed
  then show "nextLease (gheap q ! a) = Some c" "lease_id (lheap q ! c) = lease_id (lheap p ! c)"
    by simp_all
qed

lemma counter_moves_at_branch:
  assumes "step e p = Some q" "\<And>a. e \<noteq> GBranch a"
  shows "leaseIDs q = leaseIDs p"
  using assms by (cases e; clarsimp simp: step_simps split: step_splits)

lemma exited_step:
  assumes "step e p = Some q" "a < length (gheap p)" "pc (gheap p ! a) = PExit"
  shows "a < length (gheap q)" "pc (gheap q ! a) = PExit"
    "nextLease (gheap q ! a) = nextLease (gheap p ! a)" "e \<noteq> GSend a"
proof -
  consider "e = GLoad a" | "e = GBranch a" | "e = GSend a" | "e = GGranted a" | "e = GNotified a"
    | "e = GDone a"
    | "e \<noteq> GLoad a" "e \<noteq> GBranch a" "e \<noteq> GSend a" "e \<noteq> GGranted a" "e \<noteq> GNotified a" "e \<noteq> GDone a"
    by blast
  then have "a < length (gheap q) \<and> pc (gheap q ! a) = PExit \<and>
             nextLease (gheap q ! a) = nextLease (gheap p ! a) \<and> e \<noteq> GSend a"
  proof cases
    case 1
    show ?thesis using step_GLoadD(2) [OF assms(1) [unfolded 1]] assms(3) by simp
  next
    case 2
    show ?thesis using step_GBranchD(2) [OF assms(1) [unfolded 2]] assms(3) by simp
  next
    case 3
    show ?thesis using step_GSendD(2) [OF assms(1) [unfolded 3]] assms(3) by simp
  next
    case 4
    show ?thesis using step_GGrantedD(2) [OF assms(1) [unfolded 4]] assms(3) by simp
  next
    case 5
    show ?thesis using step_GNotifiedD(2) [OF assms(1) [unfolded 5]] assms(3) by simp
  next
    case 6
    show ?thesis using step_GDoneD(2) [OF assms(1) [unfolded 6]] assms(3) by simp
  next
    case 7
    note d = step_locals_other [OF assms(1,2) 7]
    show ?thesis using d(1,2,5) assms(3) 7(3) by simp
  qed
  then show "a < length (gheap q)" "pc (gheap q ! a) = PExit"
    "nextLease (gheap q ! a) = nextLease (gheap p ! a)" "e \<noteq> GSend a"
    by simp_all
qed

lemma exited_exec:
  assumes "exec es p = Some q" "a < length (gheap p)" "pc (gheap p ! a) = PExit"
  shows "a < length (gheap q) \<and> pc (gheap q ! a) = PExit \<and>
         nextLease (gheap q ! a) = nextLease (gheap p ! a) \<and> GSend a \<notin> set es"
  using assms
proof (induction es arbitrary: p)
  case Nil
  then show ?case by simp
next
  case (Cons e es)
  from Cons.prems(1) obtain p' where s: "step e p = Some p'" and x: "exec es p' = Some q"
    by (auto split: option.splits)
  note d = exited_step [OF s Cons.prems(2,3)]
  show ?case using Cons.IH [OF x d(1,2)] d(3,4) by simp
qed

lemma exited_candidate:
  assumes "reachable p" "exec es p = Some q" "a < length (gheap p)" "pc (gheap p ! a) = PExit"
    "nextLease (gheap p ! a) = Some c"
  shows "GSend a \<notin> set es" "Some c \<notin> set (granted q)"
proof -
  note x = exited_exec [OF assms(2,3,4)]
  show "GSend a \<notin> set es" using x by simp
  have "inv_all q" using reachable_exec [OF assms(1,2)] by (rule reachable_inv_all)
  then have f: "inv_fresh q" by (simp add: inv_all_def)
  have a: "a < length (gheap q)" and c: "nextLease (gheap q ! a) = Some c"
    and e: "pc (gheap q ! a) = PExit"
    using x assms(5) by simp_all
  show "Some c \<notin> set (granted q)" using fresh_cand [OF f a c] e by simp
qed

subsection \<open>Runs that wrap the id counter\<close>

lemma burn_cycle_exec:
  assumes "length (gheap p) = n" "groups p k = None"
  shows "\<exists>q. exec (burn_cycle k n) p = Some q \<and> length (gheap q) = Suc n \<and>
             lheap q = lheap p @ [\<lparr>lease_group = n, lease_id = leaseIDs p + 1, relOnce = False\<rparr>] \<and>
             leaseIDs q = leaseIDs p + 1 \<and> groups q = groups p \<and> granted q = granted p"
proof -
  have m: "(groups p)(k := None) = groups p" using assms(2) by (rule fun_upd_idem)
  show ?thesis
    using assms m
    by (simp add: burn_cycle_def zero_Counts_def run_defs pool_defs group_defs group_done_def
          nth_append)
qed

lemma burn_exec:
  assumes "groups p0 k = None"
  shows "\<exists>p. exec (burn k (length (gheap p0)) n) p0 = Some p \<and>
             length (gheap p) = length (gheap p0) + n \<and>
             length (lheap p) = length (lheap p0) + n \<and>
             (\<forall>l < length (lheap p0). lheap p ! l = lheap p0 ! l) \<and>
             leaseIDs p = leaseIDs p0 + of_nat n \<and> groups p = groups p0 \<and>
             granted p = granted p0"
proof (induction n)
  case 0
  then show ?case by simp
next
  case (Suc n)
  then obtain p where p: "exec (burn k (length (gheap p0)) n) p0 = Some p"
    "length (gheap p) = length (gheap p0) + n" "length (lheap p) = length (lheap p0) + n"
    "\<forall>l < length (lheap p0). lheap p ! l = lheap p0 ! l"
    "leaseIDs p = leaseIDs p0 + of_nat n" "groups p = groups p0" "granted p = granted p0"
    by (elim exE conjE)
  have "groups p k = None" using p(6) assms by simp
  from burn_cycle_exec [OF p(2) this]
  obtain q where q: "exec (burn_cycle k (length (gheap p0) + n)) p = Some q"
    "length (gheap q) = Suc (length (gheap p0) + n)"
    "lheap q = lheap p @ [\<lparr>lease_group = length (gheap p0) + n, lease_id = leaseIDs p + 1,
                           relOnce = False\<rparr>]"
    "leaseIDs q = leaseIDs p + 1" "groups q = groups p" "granted q = granted p"
    by (elim exE conjE)
  have x: "exec (burn k (length (gheap p0)) (Suc n)) p0 = Some q"
    using p(1) q(1) by (simp add: exec_append)
  have g: "length (gheap q) = length (gheap p0) + Suc n" using q(2) by simp
  have l: "length (lheap q) = length (lheap p0) + Suc n" using p(3) by (simp add: q(3))
  have o: "\<forall>l < length (lheap p0). lheap q ! l = lheap p0 ! l"
    using p(3,4) by (simp add: q(3) nth_append)
  have c: "leaseIDs q = leaseIDs p0 + of_nat (Suc n)" using q(4) p(5) by simp
  have r: "groups q = groups p0" "granted q = granted p0" using q(5,6) p(6,7) by simp_all
  show ?case by (intro exI [of _ q] conjI) (rule x g l o c r)+
qed

lemma last_grant_exec:
  assumes "length (gheap p) = n" "groups p k = None"
  shows "\<exists>q. exec [ESet k 1, GLoad n, GBranch n, GSend n] p = Some q \<and>
             granted q = granted p @ [Some (length (lheap p))] \<and>
             lheap q = lheap p @ [\<lparr>lease_group = n, lease_id = leaseIDs p + 1, relOnce = False\<rparr>]"
  using assms
  by (simp add: zero_Counts_def run_defs pool_defs group_defs nth_append)

lemma max_u64_plus_1: "(word_of_nat 18446744073709551615 :: u64) + 1 = 0"
  by simp

lemma wrap_run_ids: "granted_ids_after wrap_run = Some [Some 0]"
proof -
  have "groups (NewPool :: string pool) ''a'' = None" by (simp add: NewPool_def)
  from burn_exec [OF this, of 18446744073709551615]
  obtain p :: "string pool"
    where p: "exec (burn ''a'' 0 18446744073709551615) NewPool = Some p"
      "length (gheap p) = 18446744073709551615" "length (lheap p) = 18446744073709551615"
      "leaseIDs p = of_nat 18446744073709551615" "groups p = Map.empty" "granted p = []"
    by (elim exE conjE) (simp add: NewPool_def)
  have "groups p ''a'' = None" using p(5) by simp
  from last_grant_exec [OF p(2) this]
  obtain q where q: "exec [ESet ''a'' 1, GLoad 18446744073709551615,
        GBranch 18446744073709551615, GSend 18446744073709551615] p = Some q"
    "granted q = granted p @ [Some (length (lheap p))]"
    "lheap q = lheap p @ [\<lparr>lease_group = 18446744073709551615, lease_id = leaseIDs p + 1,
                           relOnce = False\<rparr>]"
    by (elim exE conjE)
  have z: "leaseIDs p + 1 = 0" unfolding p(4) by (rule max_u64_plus_1)
  have "map (map_option (\<lambda>l. lease_id (lheap q ! l))) (granted q) = [Some 0]"
    by (simp add: q(2,3) p(6) z)
  moreover have "exec wrap_run NewPool = Some q"
    unfolding wrap_run_def using p(1) q(1) by (simp add: exec_append)
  ultimately show ?thesis by (simp add: granted_ids_after_def)
qed

lemma dup_run_ids: "granted_ids_after dup_run = Some [Some 1, Some 1]"
proof -
  obtain p0 :: "string pool" where p0: "exec dup_prefix NewPool = Some p0"
    and h: "length (gheap p0) = 1" "length (lheap p0) = 1" "lease_id (lheap p0 ! 0) = 1"
      "leaseIDs p0 = 1" "groups p0 = Map.empty" "granted p0 = [Some 0]"
    by (simp add: dup_prefix_def exec_defs group_done_def)
  have "groups p0 ''a'' = None" using h(5) by simp
  from burn_exec [OF this, of 18446744073709551615]
  obtain p where b: "exec (burn ''a'' (length (gheap p0)) 18446744073709551615) p0 = Some p"
      "length (gheap p) = length (gheap p0) + 18446744073709551615"
      "length (lheap p) = length (lheap p0) + 18446744073709551615"
      "\<forall>l < length (lheap p0). lheap p ! l = lheap p0 ! l"
      "leaseIDs p = leaseIDs p0 + of_nat 18446744073709551615" "groups p = groups p0"
      "granted p = granted p0"
    by (elim exE conjE)
  have p: "exec (burn ''a'' 1 18446744073709551615) p0 = Some p"
      "length (gheap p) = 18446744073709551616" "length (lheap p) = 18446744073709551616"
      "lheap p ! 0 = lheap p0 ! 0"
      "leaseIDs p = 1 + of_nat 18446744073709551615" "groups p = Map.empty"
      "granted p = [Some 0]"
    using b h by simp_all
  have "groups p ''a'' = None" using p(6) by simp
  from last_grant_exec [OF p(2) this]
  obtain q where q: "exec [ESet ''a'' 1, GLoad 18446744073709551616,
        GBranch 18446744073709551616, GSend 18446744073709551616] p = Some q"
    "granted q = granted p @ [Some (length (lheap p))]"
    "lheap q = lheap p @ [\<lparr>lease_group = 18446744073709551616, lease_id = leaseIDs p + 1,
                           relOnce = False\<rparr>]"
    by (elim exE conjE)
  have z: "leaseIDs p + 1 = 1" unfolding p(5) by simp
  have "map (map_option (\<lambda>l. lease_id (lheap q ! l))) (granted q) = [Some 1, Some 1]"
    by (simp add: q(2,3) p(3,4,7) h(3) z nth_append)
  moreover have "exec dup_run NewPool = Some q"
    unfolding dup_run_def using p0 p(1) q(1) by (simp add: exec_append)
  ultimately show ?thesis by (simp add: granted_ids_after_def)
qed

section \<open>Set and Get\<close>

text \<open>
  C1. For every run from a new pool and every key: when the last \<open>Set\<close> on the key gave a
  target of at least 1, \<open>Get\<close> reports that target; when it gave a target below 1, and
  when the run has no \<open>Set\<close> with a target of at least 1 on the key, \<open>Get\<close>
  returns the zero counts. A \<open>Set\<close> with a target of at least 1 on a key without a group
  makes \<open>Get\<close> report that target and no active lease; on a key with a group it changes
  the target of that group and nothing else, apart from the wake signal it leaves in the
  group's channel.
\<close>

theorem Set_then_Get:
  assumes "exec es NewPool = Some p"
  shows "(\<forall>t. last_Set k es = Some t \<and> 1 \<le> t \<longrightarrow> Target (fst (Get p k)) = t) \<and>
         (\<forall>t. last_Set k es = Some t \<and> t < 1 \<longrightarrow> fst (Get p k) = zero_Counts) \<and>
         ((\<forall>t. ESet k t \<in> set es \<longrightarrow> t < 1) \<longrightarrow> fst (Get p k) = zero_Counts) \<and>
         (\<forall>t. 1 \<le> t \<and> groups p k = None \<longrightarrow>
              fst (Get (Set p k t) k) = \<lparr>Target = t, Active = 0\<rparr>) \<and>
         (\<forall>t a. 1 \<le> t \<and> groups p k = Some a \<longrightarrow>
              fst (Get (Set p k t) k) = (fst (Get p k))\<lparr>Target := t\<rparr> \<and>
              (Set p k t)\<lparr>gheap := gheap p\<rparr> = p \<and>
              length (gheap (Set p k t)) = length (gheap p) \<and>
              (\<forall>b. b \<noteq> a \<longrightarrow> gheap (Set p k t) ! b = gheap p ! b) \<and>
              (gheap (Set p k t) ! a)\<lparr>notifyC := notifyC (gheap p ! a)\<rparr> =
                (gheap p ! a)\<lparr>counts := (counts (gheap p ! a))\<lparr>Target := t\<rparr>\<rparr>)"
proof -
  have s: "set_state p k (last_Set k es)" using assms by (rule set_state_exec)
  have reg: "inv_registry p" using inv_registry_NewPool assms by (rule inv_registry_exec)
  note g = Get_of_set_state [OF s]
  have "fst (Get p k) = zero_Counts" if "\<forall>t. ESet k t \<in> set es \<longrightarrow> t < 1"
  proof (cases "last_Set k es")
    case None
    then show ?thesis using g by simp
  next
    case (Some t)
    have "ESet k t \<in> set es" using Some by (rule last_Set_mem)
    then have "t < 1" using that by simp
    then show ?thesis using g Some by simp
  qed
  moreover have "\<forall>t. 1 \<le> t \<and> groups p k = None \<longrightarrow>
              fst (Get (Set p k t) k) = \<lparr>Target = t, Active = 0\<rparr>"
    using Set_fresh [of p k] by simp
  moreover have "\<forall>t a. 1 \<le> t \<and> groups p k = Some a \<longrightarrow>
              fst (Get (Set p k t) k) = (fst (Get p k))\<lparr>Target := t\<rparr> \<and>
              (Set p k t)\<lparr>gheap := gheap p\<rparr> = p \<and>
              length (gheap (Set p k t)) = length (gheap p) \<and>
              (\<forall>b. b \<noteq> a \<longrightarrow> gheap (Set p k t) ! b = gheap p ! b) \<and>
              (gheap (Set p k t) ! a)\<lparr>notifyC := notifyC (gheap p ! a)\<rparr> =
                (gheap p ! a)\<lparr>counts := (counts (gheap p ! a))\<lparr>Target := t\<rparr>\<rparr>"
  proof (intro allI impI, elim conjE)
    fix t :: u64 and a assume h: "groups p k = Some a" "1 \<le> t"
    note e = Set_existing [OF reg h]
    show "fst (Get (Set p k t) k) = (fst (Get p k))\<lparr>Target := t\<rparr> \<and>
              (Set p k t)\<lparr>gheap := gheap p\<rparr> = p \<and>
              length (gheap (Set p k t)) = length (gheap p) \<and>
              (\<forall>b. b \<noteq> a \<longrightarrow> gheap (Set p k t) ! b = gheap p ! b) \<and>
              (gheap (Set p k t) ! a)\<lparr>notifyC := notifyC (gheap p ! a)\<rparr> =
                (gheap p ! a)\<lparr>counts := (counts (gheap p ! a))\<lparr>Target := t\<rparr>\<rparr>"
      using e(5) e(1) e(2) e(3) e(4) by (intro conjI)
  qed
  ultimately show ?thesis using g by simp
qed

theorem Set_then_Get_witness:
  "\<exists>p. exec set_run NewPool = Some p \<and>
       last_Set ''a'' set_run = Some 5 \<and> fst (Get p ''a'') = \<lparr>Target = 5, Active = 1\<rparr> \<and>
       last_Set ''b'' set_run = Some 0 \<and> fst (Get p ''b'') = zero_Counts \<and>
       last_Set ''c'' set_run = None \<and> fst (Get p ''c'') = zero_Counts \<and>
       groups p ''b'' = None \<and> fst (Get (Set p ''b'' 7) ''b'') = \<lparr>Target = 7, Active = 0\<rparr> \<and>
       groups p ''a'' = Some 0 \<and> fst (Get (Set p ''a'' 2) ''a'') = \<lparr>Target = 2, Active = 1\<rparr>"
proof -
  obtain p where p: "exec set_run NewPool = Some p"
    and g: "groups p ''b'' = None" "groups p ''a'' = Some 0" "Active (counts (gheap p ! 0)) = 1"
    by (simp add: set_run_def exec_defs)
  have l: "last_Set ''a'' set_run = Some 5" "last_Set ''b'' set_run = Some 0"
    "last_Set ''c'' set_run = None"
    by (simp_all add: set_run_def)
  have a1: "Active (fst (Get p ''a'')) = 1" using g by (simp add: Get_def loadCounts_def)
  have c: "\<forall>t. ESet ''c'' t \<in> set set_run \<longrightarrow> t < 1" by (simp add: set_run_def)
  have "Target (fst (Get p ''a'')) = 5"
    using Set_then_Get [OF p, of "''a''"] l by simp
  then have ga: "fst (Get p ''a'') = \<lparr>Target = 5, Active = 1\<rparr>" using a1 by simp
  have gb: "fst (Get p ''b'') = zero_Counts"
    using Set_then_Get [OF p, of "''b''"] l by simp
  have gc: "fst (Get p ''c'') = zero_Counts"
    using Set_then_Get [OF p, of "''c''"] c by blast
  have sb: "fst (Get (Set p ''b'' 7) ''b'') = \<lparr>Target = 7, Active = 0\<rparr>"
    using Set_then_Get [OF p, of "''b''"] g by simp
  have "fst (Get (Set p ''a'' 2) ''a'') = (fst (Get p ''a''))\<lparr>Target := 2\<rparr>"
    using Set_then_Get [OF p, of "''a''"] g by simp
  then have sa: "fst (Get (Set p ''a'' 2) ''a'') = \<lparr>Target = 2, Active = 1\<rparr>"
    using ga by simp
  show ?thesis using p l g ga gb gc sa sb by (intro exI [of _ p]) simp
qed

section \<open>Grants and the counts\<close>

text \<open>
  C2, as the code has it. In every reachable state and for every group: outside the body
  of \<open>case grant <- nextLease\<close>, \<open>Active\<close> is the number of leases of the group that were
  granted and not released. A lease is granted only in an iteration of the loop whose
  snapshot \<open>counts\<close> has \<open>Active < Target\<close>; at that moment the group's \<open>Active\<close> is at most
  the snapshot's, so \<open>Active < Target\<close> holds of the group's counts too unless a \<open>Set\<close> has
  lowered \<open>Target\<close> since the snapshot. With a snapshot that has \<open>Active \<ge> Target\<close> the
  \<open>select\<close> cannot send. The snapshot is the group's counts at \<open>loadCounts\<close>. And from a
  state where the group holds no snapshot with \<open>Active < Target\<close>, no run grants a lease of
  the group as long as \<open>Target \<le> Active\<close> holds in its states.
\<close>

theorem grant_on_snapshot:
  assumes "reachable p" "a < length (gheap p)"
  shows "(pc (gheap p ! a) \<noteq> PGranted \<longrightarrow>
            unat (Active (counts (gheap p ! a))) = outstanding p a) \<and>
         (\<forall>q. step (GSend a) p = Some q \<longrightarrow>
            Active (run_counts (gheap p ! a)) < Target (run_counts (gheap p ! a)) \<and>
            Active (counts (gheap p ! a)) \<le> Active (run_counts (gheap p ! a)) \<and>
            (Target (run_counts (gheap p ! a)) \<le> Target (counts (gheap p ! a)) \<longrightarrow>
               Active (counts (gheap p ! a)) < Target (counts (gheap p ! a)))) \<and>
         (pc (gheap p ! a) = PSelect \<and>
            \<not> Active (run_counts (gheap p ! a)) < Target (run_counts (gheap p ! a)) \<longrightarrow>
            step (GSend a) p = None) \<and>
         (\<forall>q. step (GLoad a) p = Some q \<longrightarrow>
            run_counts (gheap q ! a) = counts (gheap p ! a)) \<and>
         (\<forall>es q. exec es p = Some q \<and> \<not> offering (gheap p ! a) \<and>
            (\<forall>n r. exec (take n es) p = Some r \<longrightarrow>
               Target (counts (gheap r ! a)) \<le> Active (counts (gheap r ! a))) \<longrightarrow>
            GSend a \<notin> set es)"
proof -
  have inv: "inv_all p" using assms(1) by (rule reachable_inv_all)
  then have sel: "inv_select p" and cnt: "inv_count p" by (simp_all add: inv_all_def)
  note ok = count_okD [OF cnt assms(2), unfolded count_ok_def]
  have c1: "pc (gheap p ! a) \<noteq> PGranted \<longrightarrow>
            unat (Active (counts (gheap p ! a))) = outstanding p a"
    using ok by simp
  have c2: "Active (run_counts (gheap p ! a)) < Target (run_counts (gheap p ! a)) \<and>
            Active (counts (gheap p ! a)) \<le> Active (run_counts (gheap p ! a)) \<and>
            (Target (run_counts (gheap p ! a)) \<le> Target (counts (gheap p ! a)) \<longrightarrow>
               Active (counts (gheap p ! a)) < Target (counts (gheap p ! a)))"
    if "step (GSend a) p = Some q" for q
  proof -
    note d = step_GSendD [OF that]
    have lt: "Active (run_counts (gheap p ! a)) < Target (run_counts (gheap p ! a))"
      using select_grant [OF sel d(1)] d(2,3) by simp
    have le: "Active (counts (gheap p ! a)) \<le> Active (run_counts (gheap p ! a))"
      using ok d(2) by simp
    show ?thesis using lt le by auto
  qed
  have c3: "pc (gheap p ! a) = PSelect \<and>
            \<not> Active (run_counts (gheap p ! a)) < Target (run_counts (gheap p ! a)) \<longrightarrow>
            step (GSend a) p = None"
    using select_grant [OF sel assms(2)] assms(2) by (auto simp: run_defs)
  have c4: "run_counts (gheap q ! a) = counts (gheap p ! a)" if "step (GLoad a) p = Some q" for q
    using step_GLoadD [OF that] by (simp add: loadCounts_def)
  have c5: "GSend a \<notin> set es"
    if "exec es p = Some q \<and> \<not> offering (gheap p ! a) \<and>
            (\<forall>n r. exec (take n es) p = Some r \<longrightarrow>
               Target (counts (gheap r ! a)) \<le> Active (counts (gheap r ! a)))" for es q
    using idle_exec [of es p q a] that assms(2) by blast
  show ?thesis
    using c1 c2 c3 c4 c5 by blast
qed

text \<open>
  A grant with \<open>Active = Target\<close>: the target is 2, one lease is out, the loop has taken
  the snapshot \<open>{2, 1}\<close> and stands in the \<open>select\<close> when \<open>Set\<close> lowers the target to 1. The
  send can still be chosen, and \<open>Active\<close> becomes 2.
\<close>

theorem stale_grant_counterexample:
  "counts_after stale_run ''a'' = Some \<lparr>Target = 1, Active = 1\<rparr> \<and>
   granted_after stale_run = Some [Some 0] \<and>
   granted_after (stale_run @ [GSend 0]) = Some [Some 0, Some 1] \<and>
   counts_after (stale_run @ [GSend 0, GGranted 0]) ''a'' = Some \<lparr>Target = 1, Active = 2\<rparr>"
  by (simp add: counts_after_def granted_after_def stale_run_def exec_defs)

theorem grant_on_snapshot_witness:
  "\<exists>p q r. exec [ESet ''a'' 2, GLoad 0, GBranch 0] NewPool = Some p \<and> reachable p \<and>
       0 < length (gheap p) \<and> pc (gheap p ! 0) \<noteq> PGranted \<and>
       unat (Active (counts (gheap p ! 0))) = outstanding p 0 \<and>
       step (GSend 0) p = Some q \<and>
       Active (run_counts (gheap p ! 0)) < Target (run_counts (gheap p ! 0)) \<and>
       Target (run_counts (gheap p ! 0)) \<le> Target (counts (gheap p ! 0)) \<and>
       Active (counts (gheap p ! 0)) < Target (counts (gheap p ! 0)) \<and>
       exec idle_run NewPool = Some r \<and> reachable r \<and> \<not> offering (gheap r ! 0) \<and>
       exec [GLoad 0] r \<noteq> None \<and> GSend 0 \<notin> set [GLoad (0::nat) :: string event]"
proof -
  obtain p :: "string pool" where p: "exec [ESet ''a'' 2, GLoad 0, GBranch 0] NewPool = Some p"
    and g: "0 < length (gheap p)" "pc (gheap p ! 0) = PSelect" "grant (gheap p ! 0)"
      "Target (counts (gheap p ! 0)) = 2" "Target (run_counts (gheap p ! 0)) = 2"
    by (simp add: exec_defs)
  have rp: "reachable p" unfolding reachable_def using p by blast
  obtain q where q: "step (GSend 0) p = Some q"
    using g by (simp add: run_defs Let_def)
  obtain r :: "string pool" where r: "exec idle_run NewPool = Some r"
    and h: "0 < length (gheap r)" "pc (gheap r ! 0) = PLoad"
      "counts (gheap r ! 0) = \<lparr>Target = 1, Active = 1\<rparr>"
    by (simp add: idle_run_def exec_defs)
  have rr: "reachable r" unfolding reachable_def using r by blast
  have no: "\<not> offering (gheap r ! 0)" using h by (simp add: offering_def)
  obtain s where s: "step (GLoad 0) r = Some s" and cs: "counts (gheap s ! 0) = counts (gheap r ! 0)"
    using h by (simp add: run_defs Let_def)
  have quiet: "Target (counts (gheap r' ! 0)) \<le> Active (counts (gheap r' ! 0))"
    if "exec (take n [GLoad 0]) r = Some r'" for n r'
  proof (cases n)
    case 0
    then show ?thesis using that h(3) by simp
  next
    case (Suc m)
    then have "r' = s" using that s by simp
    then show ?thesis using cs h(3) by simp
  qed
  have ex: "exec [GLoad 0] r = Some s" using s by simp
  note t2 = grant_on_snapshot [OF rr h(1)]
  have a5: "GSend 0 \<notin> set [GLoad (0::nat) :: string event]"
    using t2 ex no quiet by blast
  note t1 = grant_on_snapshot [OF rp g(1)]
  have a1: "unat (Active (counts (gheap p ! 0))) = outstanding p 0" using t1 g(2) by simp
  have a2: "Active (run_counts (gheap p ! 0)) < Target (run_counts (gheap p ! 0))"
    and a3: "Target (run_counts (gheap p ! 0)) \<le> Target (counts (gheap p ! 0)) \<longrightarrow>
             Active (counts (gheap p ! 0)) < Target (counts (gheap p ! 0))"
    using t1 q by blast+
  have a4: "Active (counts (gheap p ! 0)) < Target (counts (gheap p ! 0))"
    using a3 g(4,5) by simp
  show ?thesis
    using p rp g q a1 a2 a4 r rr no ex a5
    by (intro exI [of _ p] exI [of _ q] exI [of _ r]) simp
qed

section \<open>Release takes effect once\<close>

text \<open>
  What \<open>Release\<close> does in every reachable state, for every lease that a receiver has taken
  from the pool: the first \<open>Release\<close> sets \<open>Active\<close> of the owning group to \<open>Active - 1\<close> (of \<open>uint64\<close>; one
  less as a number whenever the group is not between a grant and its \<open>incrActive\<close>), one
  lease fewer is outstanding, and the target, the other groups, the registry, the id
  counter and the grant history stay as they are; a \<open>Release\<close> of a released lease
  changes nothing, so any number of calls leaves the state of the first.
\<close>

theorem Release_once:
  assumes "reachable p" "Some l \<in> set (granted p)" "a = lease_group (lheap p ! l)"
    "q = Release p l"
  shows "(\<not> relOnce (lheap p ! l) \<longrightarrow>
            Active (counts (gheap q ! a)) = Active (counts (gheap p ! a)) - 1 \<and>
            Target (counts (gheap q ! a)) = Target (counts (gheap p ! a)) \<and>
            Suc (outstanding q a) = outstanding p a \<and>
            (pc (gheap p ! a) \<noteq> PGranted \<longrightarrow>
               Suc (unat (Active (counts (gheap q ! a)))) = unat (Active (counts (gheap p ! a)))) \<and>
            (\<forall>b. b \<noteq> a \<longrightarrow> gheap q ! b = gheap p ! b) \<and>
            groups q = groups p \<and> granted q = granted p \<and> leaseIDs q = leaseIDs p) \<and>
         (relOnce (lheap p ! l) \<longrightarrow> q = p) \<and>
         a < length (gheap p) \<and> relOnce (lheap q ! l) \<and> Release q l = q \<and>
         ((\<lambda>s. Release s l) ^^ Suc n) p = q"
proof -
  have inv: "inv_all p" using assms(1) by (rule reachable_inv_all)
  then have i: "inv_lease p" "inv_granted p" "inv_order p" "inv_count p"
    by (simp_all add: inv_all_def)
  have lb: "l < length (lheap p)" using i(2) assms(2) by (rule granted_bound)
  have ab: "a < length (gheap p)" unfolding assms(3) using i(1) lb by (rule lease_bound)
  have rel: "relOnce (lheap q ! l)"
  proof (cases "relOnce (lheap p ! l)")
    case True
    then show ?thesis by (simp add: assms(4) Release_done)
  next
    case False
    then show ?thesis using Release_first(7) [OF False lb assms(3) [symmetric] ab] by (simp add: assms(4))
  qed
  then have idem: "Release q l = q" by (rule Release_done)
  have pow: "((\<lambda>s. Release s l) ^^ Suc n) p = q"
    using Release_funpow [OF idem, of n] by (simp add: funpow_Suc_right assms(4) del: funpow.simps)
  have first: "\<not> relOnce (lheap p ! l) \<longrightarrow>
            Active (counts (gheap q ! a)) = Active (counts (gheap p ! a)) - 1 \<and>
            Target (counts (gheap q ! a)) = Target (counts (gheap p ! a)) \<and>
            Suc (outstanding q a) = outstanding p a \<and>
            (pc (gheap p ! a) \<noteq> PGranted \<longrightarrow>
               Suc (unat (Active (counts (gheap q ! a)))) = unat (Active (counts (gheap p ! a)))) \<and>
            (\<forall>b. b \<noteq> a \<longrightarrow> gheap q ! b = gheap p ! b) \<and>
            groups q = groups p \<and> granted q = granted p \<and> leaseIDs q = leaseIDs p"
  proof
    assume f: "\<not> relOnce (lheap p ! l)"
    note r = Release_first [OF f lb assms(3) [symmetric] ab, folded assms(4)]
    have o: "Suc (outstanding q a) = outstanding p a"
      using outstanding_release(1) [OF granted_distinct [OF i(3,2)] assms(2) lb f r(1,2)] assms(3)
      by simp
    have u: "Suc (unat (Active (counts (gheap q ! a)))) = unat (Active (counts (gheap p ! a)))"
      if "pc (gheap p ! a) \<noteq> PGranted"
    proof -
      have "unat (Active (counts (gheap p ! a))) = outstanding p a"
        using count_okD [OF i(4) ab] that by (simp add: count_ok_def)
      then have "unat (Active (counts (gheap p ! a))) = Suc (outstanding q a)" using o by simp
      moreover from this have "Active (counts (gheap p ! a)) \<noteq> 0" by (metis Zero_not_Suc unat_0)
      ultimately show ?thesis by (simp add: r(8) unat_minus_one)
    qed
    show "Active (counts (gheap q ! a)) = Active (counts (gheap p ! a)) - 1 \<and>
            Target (counts (gheap q ! a)) = Target (counts (gheap p ! a)) \<and>
            Suc (outstanding q a) = outstanding p a \<and>
            (pc (gheap p ! a) \<noteq> PGranted \<longrightarrow>
               Suc (unat (Active (counts (gheap q ! a)))) = unat (Active (counts (gheap p ! a)))) \<and>
            (\<forall>b. b \<noteq> a \<longrightarrow> gheap q ! b = gheap p ! b) \<and>
            groups q = groups p \<and> granted q = granted p \<and> leaseIDs q = leaseIDs p"
      using r(1,4,5,8) o u by (simp add: r(3))
  qed
  have same: "relOnce (lheap p ! l) \<longrightarrow> q = p"
    using Release_done [of p l] assms(4) by simp
  show ?thesis
    by (intro conjI) (rule first same ab rel idem pow)+
qed

theorem Release_once_witness:
  "\<exists>p. exec idle_run NewPool = Some p \<and> reachable p \<and> Some 0 \<in> set (granted p) \<and>
       lease_group (lheap p ! 0) = 0 \<and> \<not> relOnce (lheap p ! 0) \<and>
       pc (gheap p ! 0) \<noteq> PGranted \<and>
       fst (Get p ''a'') = \<lparr>Target = 1, Active = 1\<rparr> \<and>
       fst (Get (Release p 0) ''a'') = \<lparr>Target = 1, Active = 0\<rparr> \<and>
       Release (Release p 0) 0 = Release p 0 \<and>
       fst (Get (Release (Release p 0) 0) ''a'') = \<lparr>Target = 1, Active = 0\<rparr> \<and>
       relOnce (lheap (Release p 0) ! 0) \<and>
       Release (Release (Release p 0) 0) 0 = Release (Release p 0) 0"
proof -
  obtain p :: "string pool" where p: "exec idle_run NewPool = Some p"
    and g: "granted p = [Some 0]" "lease_group (lheap p ! 0) = 0" "\<not> relOnce (lheap p ! 0)"
      "pc (gheap p ! 0) = PLoad" "groups p ''a'' = Some 0"
      "counts (gheap p ! 0) = \<lparr>Target = 1, Active = 1\<rparr>"
    by (simp add: idle_run_def exec_defs)
  have rp: "reachable p" unfolding reachable_def using p by blast
  have m: "Some 0 \<in> set (granted p)" using g(1) by simp
  note t = Release_once [OF rp m g(2) [symmetric] refl, of 0]
  have a: "Active (counts (gheap (Release p 0) ! 0)) = 0"
    "Target (counts (gheap (Release p 0) ! 0)) = 1" "groups (Release p 0) = groups p"
    using t g(3,6) by simp_all
  have b: "Release (Release p 0) 0 = Release p 0" "relOnce (lheap (Release p 0) ! 0)"
    using t by simp_all
  have g0: "fst (Get p ''a'') = \<lparr>Target = 1, Active = 1\<rparr>"
    using g(5,6) by (simp add: Get_def loadCounts_def)
  have g1: "fst (Get (Release p 0) ''a'') = \<lparr>Target = 1, Active = 0\<rparr>"
    using a g(5) by (simp add: Get_def loadCounts_def)
  have rq: "reachable (Release p 0)"
    using reachable_step [OF rp, of "ERelease 0" "Release p 0"] m by simp
  have "granted (Release p 0) = granted p" using t g(3) by simp
  then have m': "Some 0 \<in> set (granted (Release p 0))" using m by simp
  have b2: "Release (Release (Release p 0) 0) 0 = Release (Release p 0) 0"
    using Release_once [OF rq m' refl refl, of 0] b(2) by simp
  show ?thesis
    using p rp m g(2,3,4) g0 g1 b b2 by (intro exI [of _ p]) simp
qed

text \<open>
  C3 fails on the code. \<open>group.run\<close> sends the lease on the channel and calls \<open>incrActive\<close>
  only afterwards, in the body of \<open>case grant <- nextLease\<close>. After \<open>Set("a", 1)\<close> a receiver
  takes the lease from \<open>Acquire()\<close>; \<open>Get("a")\<close> is \<open>{Target 1, Active 0}\<close>. It calls \<open>Release\<close>
  before the goroutine has run \<open>incrActive\<close>: \<open>decrActive\<close> runs \<open>Active--\<close> on the \<open>uint64\<close> 0 and
  \<open>Get("a")\<close> is \<open>{Target 1, Active 18446744073709551615}\<close>, not an \<open>Active\<close> lower by 1. A
  second \<open>Release\<close> changes nothing, and the late \<open>incrActive\<close> brings \<open>Active\<close> back to 0.
\<close>

theorem Release_before_incrActive:
  "counts_after [ESet ''a'' 1, GLoad 0, GBranch 0, GSend 0] ''a'' =
     Some \<lparr>Target = 1, Active = 0\<rparr> \<and>
   granted_after [ESet ''a'' 1, GLoad 0, GBranch 0, GSend 0] = Some [Some 0] \<and>
   window_run = [ESet ''a'' 1, GLoad 0, GBranch 0, GSend 0] @ [ERelease 0] \<and>
   counts_after window_run ''a'' = Some \<lparr>Target = 1, Active = 18446744073709551615\<rparr> \<and>
   counts_after (window_run @ [ERelease 0]) ''a'' =
     Some \<lparr>Target = 1, Active = 18446744073709551615\<rparr> \<and>
   counts_after (window_run @ [GGranted 0]) ''a'' = Some \<lparr>Target = 1, Active = 0\<rparr>"
  by (simp add: counts_after_def granted_after_def window_run_def exec_defs)

section \<open>Stop\<close>

text \<open>
  C4 fails on the code. \<open>Stop\<close> cancels the context and nothing else. A goroutine that
  enters its \<open>select\<close> after \<open>Stop\<close> while a receiver waits on \<open>Acquire()\<close> has two cases
  that can proceed, the send and \<open>ctx.Done()\<close>, and Go picks either. The runs below grant
  lease 0 after \<open>Stop\<close>: from a group that has its candidate ready when \<open>Stop\<close> is called,
  and from a group that \<open>Set\<close> creates after \<open>Stop\<close>.
\<close>

theorem lease_granted_after_Stop:
  "stopped_after stop_run = Some True \<and> granted_after stop_run = Some [] \<and>
   granted_after (stop_run @ [GSend 0]) = Some [Some 0] \<and>
   granted_after ([EStop, ESet ''b'' 1, GLoad 0, GBranch 0, GSend 0] :: string event list)
     = Some [Some 0]"
  by (simp add: stopped_after_def granted_after_def stop_run_def exec_defs)

section \<open>Candidate leases and their ids\<close>

text \<open>
  C5, as the code has it. In every reachable state: a group draws an id only in the
  granting branch with \<open>nextLease == nil\<close>, and the id is the counter plus 1; in every
  other case the branch leaves the counter, the leases and the candidate as they are. A
  candidate and its id stay through every step but the body of
  \<open>case grant <- nextLease\<close>, which runs only after its grant. The counter moves in no
  other step, so an id is consumed when its candidate is allocated. Once the goroutine of
  a group has returned, it sends no more, and the candidate it held is granted in no run
  from there. No lease is granted twice. While fewer than \<open>2 ^ 64\<close> ids have been drawn,
  the ids of all leases are pairwise distinct, and the ids that one group grants increase
  strictly in the order of the grants.
\<close>

theorem candidate_ids:
  assumes "reachable p"
  shows "(\<forall>a q. step (GBranch a) p = Some q \<longrightarrow>
            (if nextLease (gheap p ! a) = None \<and>
                Active (run_counts (gheap p ! a)) < Target (run_counts (gheap p ! a))
             then leaseIDs q = leaseIDs p + 1 \<and>
                  nextLease (gheap q ! a) = Some (length (lheap p)) \<and>
                  lheap q = lheap p @
                    [\<lparr>lease_group = a, lease_id = leaseIDs p + 1, relOnce = False\<rparr>]
             else leaseIDs q = leaseIDs p \<and> lheap q = lheap p \<and>
                  nextLease (gheap q ! a) = nextLease (gheap p ! a))) \<and>
         (\<forall>e q a c. step e p = Some q \<and> a < length (gheap p) \<and>
            nextLease (gheap p ! a) = Some c \<and> e \<noteq> GGranted a \<longrightarrow>
            nextLease (gheap q ! a) = Some c \<and> lease_id (lheap q ! c) = lease_id (lheap p ! c)) \<and>
         (\<forall>a q. step (GGranted a) p = Some q \<longrightarrow>
            (\<exists>c. nextLease (gheap p ! a) = Some c \<and> Some c \<in> set (granted p))) \<and>
         (\<forall>e q. step e p = Some q \<and> (\<forall>a. e \<noteq> GBranch a) \<longrightarrow> leaseIDs q = leaseIDs p) \<and>
         (\<forall>es q a c. exec es p = Some q \<and> a < length (gheap p) \<and> pc (gheap p ! a) = PExit \<and>
            nextLease (gheap p ! a) = Some c \<longrightarrow>
            GSend a \<notin> set es \<and> Some c \<notin> set (granted q)) \<and>
         distinct (granted p) \<and>
         (length (lheap p) < 2 ^ 64 \<longrightarrow>
            (\<forall>l m. l < length (lheap p) \<and> m < length (lheap p) \<and> l \<noteq> m \<longrightarrow>
               lease_id (lheap p ! l) \<noteq> lease_id (lheap p ! m)) \<and>
            (\<forall>i j l m. i < j \<and> j < length (granted p) \<and> granted p ! i = Some l \<and>
               granted p ! j = Some m \<and> lease_group (lheap p ! l) = lease_group (lheap p ! m) \<longrightarrow>
               lease_id (lheap p ! l) < lease_id (lheap p ! m)))"
proof -
  have inv: "inv_all p" using assms by (rule reachable_inv_all)
  then have i: "inv_lease p" "inv_cand p" "inv_select p" "inv_granted p" "inv_fresh p"
    "inv_order p"
    by (simp_all add: inv_all_def)
  have c1: "if nextLease (gheap p ! a) = None \<and>
                Active (run_counts (gheap p ! a)) < Target (run_counts (gheap p ! a))
             then leaseIDs q = leaseIDs p + 1 \<and>
                  nextLease (gheap q ! a) = Some (length (lheap p)) \<and>
                  lheap q = lheap p @
                    [\<lparr>lease_group = a, lease_id = leaseIDs p + 1, relOnce = False\<rparr>]
             else leaseIDs q = leaseIDs p \<and> lheap q = lheap p \<and>
                  nextLease (gheap q ! a) = nextLease (gheap p ! a)"
    if "step (GBranch a) p = Some q" for a q
    using step_GBranchD(10) [OF that] by auto
  have c2: "nextLease (gheap q ! a) = Some c \<and> lease_id (lheap q ! c) = lease_id (lheap p ! c)"
    if "step e p = Some q \<and> a < length (gheap p) \<and>
            nextLease (gheap p ! a) = Some c \<and> e \<noteq> GGranted a" for e q a c
    using candidate_kept [OF i(2), of e q a c] that by blast
  have c3: "\<exists>c. nextLease (gheap p ! a) = Some c \<and> Some c \<in> set (granted p)"
    if "step (GGranted a) p = Some q" for a q
  proof -
    note d = step_GGrantedD [OF that]
    obtain c where c: "nextLease (gheap p ! a) = Some c"
      using select_cand [OF i(3) d(1) _ select_granted [OF i(3) d(1,2)]] d(2) by blast
    then have "Some c \<in> set (granted p)" using fresh_cand [OF i(5) d(1) c] d(2) by simp
    then show ?thesis using c by blast
  qed
  have c4: "leaseIDs q = leaseIDs p" if "step e p = Some q \<and> (\<forall>a. e \<noteq> GBranch a)" for e q
    using counter_moves_at_branch [of e p q] that by blast
  have c8: "GSend a \<notin> set es \<and> Some c \<notin> set (granted q)"
    if "exec es p = Some q \<and> a < length (gheap p) \<and> pc (gheap p ! a) = PExit \<and>
            nextLease (gheap p ! a) = Some c" for es q a c
    using exited_candidate [OF assms, of es q a c] that by simp
  have c5: "distinct (granted p)" using i(6,4) by (rule granted_distinct)
  have c6: "lease_id (lheap p ! l) \<noteq> lease_id (lheap p ! m)"
    if "length (lheap p) < 2 ^ 64" "l < length (lheap p) \<and> m < length (lheap p) \<and> l \<noteq> m"
    for l m
    using lease_id_unat [OF i(1) _ that(1), of l] lease_id_unat [OF i(1) _ that(1), of m] that(2)
    by auto
  have c7: "lease_id (lheap p ! l) < lease_id (lheap p ! m)"
    if "length (lheap p) < 2 ^ 64" "i < j \<and> j < length (granted p) \<and> granted p ! i = Some l \<and>
               granted p ! j = Some m \<and> lease_group (lheap p ! l) = lease_group (lheap p ! m)"
    for i j l m
  proof -
    have lm: "l < m" using order_sorted [OF i(6), of i j l m] that(2) by blast
    have "i < length (granted p)" using that(2) by simp
    then have lb: "l < length (lheap p)" "m < length (lheap p)"
      using granted_nth_bound [OF i(4)] that(2) by blast+
    show ?thesis
      using lease_id_unat [OF i(1) lb(1) that(1)] lease_id_unat [OF i(1) lb(2) that(1)] lm
      by (simp add: word_less_nat_alt)
  qed
  show ?thesis
    apply (intro conjI allI impI)
    subgoal for a q by (rule c1)
    subgoal for e q a c using c2 [of e q a c] by simp
    subgoal for e q a c using c2 [of e q a c] by simp
    subgoal for a q by (rule c3)
    subgoal for e q by (rule c4) simp
    subgoal for es q a c using c8 [of es q a c] by simp
    subgoal for es q a c using c8 [of es q a c] by simp
    subgoal by (rule c5)
    subgoal for l m by (rule c6)
    subgoal for i j l m by (rule c7)
    done
qed

text \<open>
  An id that is drawn and never granted, grants out of id order, and an id granted twice.
  In \<open>burn_run\<close> the group of key a draws id 1 and is deleted before any receiver comes;
  its goroutine returns, and the first lease the pool ever grants has id 2. In
  \<open>cross_run\<close> the groups of a and b draw ids 1 and 2, and the lease with id 2 is granted
  first. In \<open>dup_run\<close> the lease with id 1 is granted, \<open>2 ^ 64 - 1\<close> further ids are drawn,
  and the next candidate, which is granted, has id 1 again.
\<close>

theorem ids_counterexample:
  "leaseIDs_after burn_prefix = Some 1 \<and> granted_ids_after burn_prefix = Some [] \<and>
   granted_ids_after burn_run = Some [Some 2] \<and>
   granted_ids_after cross_run = Some [Some 2, Some 1] \<and>
   granted_ids_after dup_run = Some [Some 1, Some 1]"
proof -
  have "leaseIDs_after burn_prefix = Some 1 \<and> granted_ids_after burn_prefix = Some [] \<and>
   granted_ids_after burn_run = Some [Some 2] \<and>
   granted_ids_after cross_run = Some [Some 2, Some 1]"
    by (simp add: leaseIDs_after_def granted_ids_after_def burn_prefix_def burn_run_def
        cross_run_def exec_defs group_done_def)
  then show ?thesis using dup_run_ids by simp
qed

theorem candidate_ids_witness:
  "\<exists>p q r. exec [ESet ''a'' 1, GLoad 0] NewPool = Some p \<and> reachable p \<and>
       nextLease (gheap p ! 0) = None \<and>
       Active (run_counts (gheap p ! 0)) < Target (run_counts (gheap p ! 0)) \<and>
       step (GBranch 0) p = Some q \<and> leaseIDs p = 0 \<and> leaseIDs q = 1 \<and>
       nextLease (gheap q ! 0) = Some 0 \<and> reachable q \<and>
       nextLease (gheap (Stop q) ! 0) = Some 0 \<and>
       lease_id (lheap (Stop q) ! 0) = lease_id (lheap q ! 0) \<and> leaseIDs (Stop q) = leaseIDs q \<and>
       exec (stale_run @ [GSend 0]) NewPool = Some r \<and> reachable r \<and>
       length (lheap r) < 2 ^ 64 \<and> granted r = [Some 0, Some 1] \<and>
       lease_group (lheap r ! 0) = lease_group (lheap r ! 1) \<and>
       lease_id (lheap r ! 0) < lease_id (lheap r ! 1) \<and>
       lease_id (lheap r ! 0) \<noteq> lease_id (lheap r ! 1) \<and>
       step (GGranted 0) r \<noteq> None \<and> nextLease (gheap r ! 0) = Some 1 \<and>
       (\<exists>s t. exec burn_prefix NewPool = Some s \<and> reachable s \<and> pc (gheap s ! 0) = PExit \<and>
          nextLease (gheap s ! 0) = Some 0 \<and>
          exec [ESet ''a'' 1, GLoad 1, GBranch 1, GSend 1] s = Some t \<and>
          Some 0 \<notin> set (granted t))"
proof -
  obtain p :: "string pool" where p: "exec [ESet ''a'' 1, GLoad 0] NewPool = Some p"
    and g: "0 < length (gheap p)" "pc (gheap p ! 0) = PBranch" "nextLease (gheap p ! 0) = None"
      "Active (run_counts (gheap p ! 0)) < Target (run_counts (gheap p ! 0))" "leaseIDs p = 0"
      "length (lheap p) = 0"
    by (simp add: exec_defs)
  have rp: "reachable p" unfolding reachable_def using p by blast
  obtain q where q: "step (GBranch 0) p = Some q"
    using g by (simp add: run_defs Let_def)
  have rq: "reachable q" using rp q by (rule reachable_step)
  note tp = candidate_ids [OF rp, THEN conjunct1, rule_format, OF q]
  have q1: "leaseIDs q = 1" "nextLease (gheap q ! 0) = Some (length (lheap p))"
    using tp g(3,4,5) by simp_all
  have q2: "nextLease (gheap q ! 0) = Some 0" using q1(2) g(6) by simp
  have q0: "0 < length (gheap q)" using step_GBranchD(4) [OF q] g(1) by simp
  note tq = candidate_ids [OF rq, THEN conjunct2]
  have s: "step EStop q = Some (Stop q)" by simp
  have "step EStop q = Some (Stop q) \<and> 0 < length (gheap q) \<and>
        nextLease (gheap q ! 0) = Some 0 \<and> EStop \<noteq> GGranted 0"
    using q0 q2 by simp
  note k0 = tq [THEN conjunct1, rule_format, OF this]
  have k: "nextLease (gheap (Stop q) ! 0) = Some 0"
    "lease_id (lheap (Stop q) ! 0) = lease_id (lheap q ! 0)"
    using k0 by simp_all
  have "step EStop q = Some (Stop q) \<and> (\<forall>a. EStop \<noteq> GBranch a)" by simp
  note k2 = tq [THEN conjunct2, THEN conjunct2, THEN conjunct1, rule_format, OF this]
  obtain r :: "string pool" where r: "exec (stale_run @ [GSend 0]) NewPool = Some r"
    and h: "granted r = [Some 0, Some 1]" "length (lheap r) = 2"
      "lease_group (lheap r ! 0) = lease_group (lheap r ! 1)" "0 < length (gheap r)"
      "pc (gheap r ! 0) = PGranted" "nextLease (gheap r ! 0) = Some 1"
    by (simp add: stale_run_def exec_defs)
  have rr: "reachable r" unfolding reachable_def using r by blast
  have small: "length (lheap r) < 2 ^ 64" using h(2) by simp
  note tr = candidate_ids [OF rr, THEN conjunct2, THEN conjunct2, THEN conjunct2,
      THEN conjunct2, THEN conjunct2, THEN conjunct2, rule_format, OF small]
  have o: "lease_id (lheap r ! 0) < lease_id (lheap r ! 1)"
  proof -
    have "(0::nat) < 1 \<and> 1 < length (granted r) \<and> granted r ! 0 = Some 0 \<and>
          granted r ! 1 = Some 1 \<and> lease_group (lheap r ! 0) = lease_group (lheap r ! 1)"
      using h(1,3) by simp
    then show ?thesis by (rule tr [THEN conjunct2, rule_format])
  qed
  have u: "lease_id (lheap r ! 0) \<noteq> lease_id (lheap r ! 1)"
  proof -
    have "(0::nat) < length (lheap r) \<and> 1 < length (lheap r) \<and> (0::nat) \<noteq> 1"
      using h(2) by simp
    then show ?thesis by (rule tr [THEN conjunct1, rule_format])
  qed
  have e: "step (GGranted 0) r \<noteq> None" using h(4,5) by (simp add: run_defs Let_def)
  obtain s :: "string pool" where s: "exec burn_prefix NewPool = Some s"
    and b: "0 < length (gheap s)" "pc (gheap s ! 0) = PExit" "nextLease (gheap s ! 0) = Some 0"
      "length (gheap s) = 1" "groups s ''a'' = None"
    by (simp add: burn_prefix_def exec_defs group_done_def)
  have rs: "reachable s" unfolding reachable_def using s by blast
  obtain t where t: "exec [ESet ''a'' 1, GLoad 1, GBranch 1, GSend 1] s = Some t"
    using last_grant_exec [OF b(4,5)] by (elim exE conjE)
  have "exec [ESet ''a'' 1, GLoad 1, GBranch 1, GSend 1] s = Some t \<and> 0 < length (gheap s) \<and>
        pc (gheap s ! 0) = PExit \<and> nextLease (gheap s ! 0) = Some 0"
    using t b by simp
  note x0 = candidate_ids [OF rs, THEN conjunct2, THEN conjunct2, THEN conjunct2,
      THEN conjunct2, THEN conjunct1, rule_format, OF this]
  have x: "Some 0 \<notin> set (granted t)" using x0 by (rule conjunct2)
  have last: "\<exists>s t. exec burn_prefix NewPool = Some s \<and> reachable s \<and> pc (gheap s ! 0) = PExit \<and>
          nextLease (gheap s ! 0) = Some 0 \<and>
          exec [ESet ''a'' 1, GLoad 1, GBranch 1, GSend 1] s = Some t \<and>
          Some 0 \<notin> set (granted t)"
    apply (rule exI [of _ s], rule exI [of _ t])
    apply (intro conjI)
    apply (rule s rs b(2,3) t x)+
    done
  show ?thesis
    apply (rule exI [of _ p], rule exI [of _ q], rule exI [of _ r])
    apply (intro conjI)
    apply (rule p rp g(3,4,5) q q1(1) q2 rq k k2 r rr small h(1,3,6) o u e last)+
    done
qed

section \<open>Releasing a lease of a deleted group\<close>

text \<open>
  C6. In every reachable state where a lease of the group registered under a key has been
  granted: after \<open>Set(key, 0)\<close>, \<open>Get(key)\<close> returns the zero counts; \<open>Release\<close> of the lease
  is then still enabled, decrements \<open>Active\<close> of the removed (cancelled) group object once,
  and leaves the registry as it is, so the key stays absent and \<open>Get(key)\<close> stays zero.
\<close>

theorem Release_after_delete:
  assumes "reachable p" "Some l \<in> set (granted p)" "a = lease_group (lheap p ! l)"
    "groups p k = Some a" "q = Set p k 0" "r = Release q l"
  shows "fst (Get q k) = zero_Counts \<and> step (ERelease l) q = Some r \<and>
         groups r = groups q \<and> groups r k = None \<and> fst (Get r k) = zero_Counts \<and>
         length (gheap r) = length (gheap q) \<and> cancelled (gheap r ! a) \<and>
         (\<not> relOnce (lheap p ! l) \<longrightarrow>
            Active (counts (gheap r ! a)) = Active (counts (gheap p ! a)) - 1 \<and>
            Target (counts (gheap r ! a)) = Target (counts (gheap p ! a))) \<and>
         (relOnce (lheap p ! l) \<longrightarrow> r = q) \<and> Release r l = r"
proof -
  have inv: "inv_all p" using assms(1) by (rule reachable_inv_all)
  then have i: "inv_lease p" "inv_granted p" by (simp_all add: inv_all_def)
  have lb: "l < length (lheap p)" using i(2) assms(2) by (rule granted_bound)
  have ab: "a < length (gheap p)" unfolding assms(3) using i(1) lb by (rule lease_bound)
  note s = Set_zero_deletes [OF assms(4) ab, folded assms(5)]
  have g: "fst (Get q k) = zero_Counts" using s(1) by (simp add: Get_def)
  have st: "step (ERelease l) q = Some r" using assms(2) s(4) by (simp add: assms(6))
  have ab': "a < length (gheap q)" using ab by (simp add: s(2))
  have lb': "l < length (lheap q)" using lb by (simp add: s(3))
  have lg: "lease_group (lheap q ! l) = a" by (simp add: s(3) assms(3))
  show ?thesis
  proof (cases "relOnce (lheap p ! l)")
    case True
    then have rq: "r = q" by (simp add: assms(6) Release_done s(3))
    then have "Release r l = r" using assms(6) by simp
    then show ?thesis using g st s(1,5) True rq by (simp add: Get_def)
  next
    case False
    then have f: "\<not> relOnce (lheap q ! l)" by (simp add: s(3))
    note rl = Release_first [OF f lb' lg ab', folded assms(6)]
    have "Release r l = r" using rl(7) by (rule Release_done)
    then show ?thesis
      using g st rl(3,4,8,9) s(1,5,6) ab' False by (simp add: Get_def)
  qed
qed

theorem Release_after_delete_witness:
  "\<exists>p. exec idle_run NewPool = Some p \<and> reachable p \<and> Some 0 \<in> set (granted p) \<and>
       lease_group (lheap p ! 0) = 0 \<and> groups p ''a'' = Some 0 \<and> \<not> relOnce (lheap p ! 0) \<and>
       fst (Get p ''a'') = \<lparr>Target = 1, Active = 1\<rparr> \<and>
       fst (Get (Set p ''a'' 0) ''a'') = zero_Counts \<and>
       step (ERelease 0) (Set p ''a'' 0) = Some (Release (Set p ''a'' 0) 0) \<and>
       groups (Release (Set p ''a'' 0) 0) ''a'' = None \<and>
       fst (Get (Release (Set p ''a'' 0) 0) ''a'') = zero_Counts \<and>
       counts (gheap (Release (Set p ''a'' 0) 0) ! 0) = \<lparr>Target = 1, Active = 0\<rparr> \<and>
       exec delete_run NewPool = Some (Release (Set p ''a'' 0) 0)"
proof -
  obtain p :: "string pool" where p: "exec idle_run NewPool = Some p"
    and g: "granted p = [Some 0]" "lease_group (lheap p ! 0) = 0" "\<not> relOnce (lheap p ! 0)"
      "groups p ''a'' = Some 0" "counts (gheap p ! 0) = \<lparr>Target = 1, Active = 1\<rparr>"
    by (simp add: idle_run_def exec_defs)
  have rp: "reachable p" unfolding reachable_def using p by blast
  have m: "Some 0 \<in> set (granted p)" using g(1) by simp
  have g4: "groups p ''a'' = Some (lease_group (lheap p ! 0))" using g(2,4) by simp
  note t = Release_after_delete [OF rp m refl g4 refl refl]
  have c: "counts (gheap (Release (Set p ''a'' 0) 0) ! 0) = \<lparr>Target = 1, Active = 0\<rparr>"
    using t g(2,3,5) by simp
  have g0: "fst (Get p ''a'') = \<lparr>Target = 1, Active = 1\<rparr>"
    using g(4,5) by (simp add: Get_def loadCounts_def)
  have d: "delete_run = idle_run @ [ESet ''a'' 0, ERelease 0]"
    by (simp add: delete_run_def idle_run_def)
  have "Some 0 \<in> set (granted (Set p ''a'' 0))"
    using g(1,4) by (simp add: Set_def del_def)
  then have x: "exec delete_run NewPool = Some (Release (Set p ''a'' 0) 0)"
    unfolding d using p by (simp add: exec_append)
  have t1: "fst (Get (Set p ''a'' 0) ''a'') = zero_Counts"
    and t2: "step (ERelease 0) (Set p ''a'' 0) = Some (Release (Set p ''a'' 0) 0)"
    and t3: "groups (Release (Set p ''a'' 0) 0) ''a'' = None"
    and t4: "fst (Get (Release (Set p ''a'' 0) 0) ''a'') = zero_Counts"
    using t by blast+
  show ?thesis
    by (intro exI [of _ p] conjI) (rule p rp m g(2,3,4) g0 t1 t2 t3 t4 c x)+
qed

section \<open>Get changes nothing\<close>

text \<open>
  C7. For every pool state and key, \<open>Get\<close> leaves the pool exactly as it was (the
  registry, every group and its counts), the call always returns, and on a key without a
  group it returns the zero counts.
\<close>

theorem Get_frame:
  "snd (Get p k) = p \<and> step (EGet k) p = Some p \<and>
   (groups p k = None \<longrightarrow> fst (Get p k) = zero_Counts)"
  by (simp add: Get_def split: option.splits)

theorem Get_frame_witness:
  "snd (Get (Set NewPool ''a'' 2) ''b'') = Set NewPool ''a'' 2 \<and>
   step (EGet ''b'') (Set NewPool ''a'' 2) = Some (Set NewPool ''a'' 2) \<and>
   groups (Set NewPool ''a'' 2) ''b'' = None \<and>
   fst (Get (Set NewPool ''a'' 2) ''b'') = zero_Counts"
proof -
  have "groups (Set NewPool ''a'' 2) ''b'' = None"
    by (simp add: exec_defs)
  then show ?thesis
    using Get_frame [of "Set NewPool ''a'' 2" "''b''"] by simp
qed

section \<open>The wake signal\<close>

text \<open>
  C8. \<open>notify\<close> never blocks and coalesces: when the wake channel already holds a
  signal the state stays as it is, otherwise the signal is stored; in every reachable
  state each wake channel holds at most one signal; and \<open>Get\<close>, \<open>Set\<close>, \<open>Stop\<close> and
  \<open>Release\<close> (on a lease that was granted) are enabled in every state.
\<close>

theorem notify_coalesces:
  "(notifyC_cap \<le> notifyC g \<longrightarrow> notify g = g) \<and>
   (notifyC g < notifyC_cap \<longrightarrow> notify g = g\<lparr>notifyC := Suc (notifyC g)\<rparr>) \<and>
   (reachable p \<longrightarrow> (\<forall>a < length (gheap p). notifyC (gheap p ! a) \<le> 1)) \<and>
   step (EGet k) p \<noteq> None \<and> step (ESet k t) p \<noteq> None \<and> step EStop p \<noteq> None \<and>
   (Some l \<in> set (granted p) \<longrightarrow> step (ERelease l) p \<noteq> None)"
proof -
  have "reachable p \<Longrightarrow> inv_notify p"
    by (rule reachable_invariant [where P = inv_notify])
       (auto intro: inv_notify_NewPool inv_notify_step)
  then show ?thesis
    by (auto simp: notify_def chan_send_def inv_notify_def notifyC_cap_def)
qed

theorem notify_coalesces_witness:
  "\<exists>p. exec wake_run NewPool = Some p \<and> reachable p \<and>
       notifyC_cap \<le> notifyC (gheap p ! 0) \<and> notify (gheap p ! 0) = gheap p ! 0 \<and>
       notifyC (gheap p ! 0) \<le> 1 \<and> Some 0 \<in> set (granted p) \<and>
       step (ERelease 0) p \<noteq> None \<and>
       notifyC (gheap (Set NewPool ''a'' 1) ! 0) < notifyC_cap \<and>
       notifyC (notify (gheap (Set NewPool ''a'' 1) ! 0)) = 1"
proof -
  obtain p where p: "exec wake_run NewPool = Some p"
    and g: "notifyC (gheap p ! 0) = 1" "0 < length (gheap p)" "granted p = [Some 0]"
    by (simp add: wake_run_def exec_defs)
  have r: "reachable p" unfolding reachable_def using p by blast
  have s: "notifyC (gheap (Set NewPool ''a'' 1) ! 0) < notifyC_cap"
    by (simp add: exec_defs)
  show ?thesis
    using notify_coalesces [of "gheap p ! 0" p "''a''" 1 0]
      notify_coalesces [of "gheap (Set NewPool ''a'' 1) ! 0" p "''a''" 1 0] p g r s
    by (simp add: notifyC_cap_def)
qed

section \<open>The no-op lease\<close>

text \<open>
  C9. For every key, the lease that \<open>NOPLease\<close> builds has id 0 and the given key, and
  calling its \<open>Release\<close> any number of times leaves every state as it was.
\<close>

theorem NOPLease_inert:
  "nopLease_ID (NOPLease k) = 0 \<and> nopLease_Key (NOPLease k) = k \<and>
   (nopLease_Release (NOPLease k) ^^ n) s = s"
proof -
  have "(nopLease_Release (NOPLease k) ^^ n) s = s"
    by (induction n) (simp_all add: nopLease_Release_def)
  then show ?thesis
    by (simp add: nopLease_ID_def nopLease_Key_def NOPLease_def)
qed

section \<open>Ids of granted leases\<close>

text \<open>
  C10, as the code has it. The counter of a new pool is 0, and in every reachable state
  it is the number of leases allocated so far (modulo \<open>2 ^ 64\<close>); a candidate takes the
  counter plus 1. While fewer than \<open>2 ^ 64\<close> leases have been allocated, the lease at
  address \<open>l\<close> has the id \<open>l + 1\<close>, so every granted lease has an id of at least 1, which
  differs from the id 0 of a \<open>NOPLease\<close>.
\<close>

theorem granted_id_positive:
  assumes "reachable (p :: 'k pool)" "length (lheap p) < 2 ^ 64" "Some l \<in> set (granted p)"
  shows "1 \<le> lease_id (lheap p ! l) \<and> lease_id (lheap p ! l) \<noteq> nopLease_ID (NOPLease k) \<and>
         unat (lease_id (lheap p ! l)) = Suc l \<and>
         leaseIDs (NewPool :: 'k pool) = 0 \<and> leaseIDs p = of_nat (length (lheap p)) \<and>
         (\<forall>a q. step (GBranch a) p = Some q \<and> lheap q \<noteq> lheap p \<longrightarrow>
            leaseIDs q = leaseIDs p + 1 \<and>
            lheap q = lheap p @ [\<lparr>lease_group = a, lease_id = leaseIDs p + 1, relOnce = False\<rparr>])"
proof -
  have inv: "inv_all p" using assms(1) by (rule reachable_inv_all)
  then have i: "inv_lease p" "inv_granted p" by (simp_all add: inv_all_def)
  have lb: "l < length (lheap p)" using i(2) assms(3) by (rule granted_bound)
  have u: "unat (lease_id (lheap p ! l)) = Suc l" using i(1) lb assms(2) by (rule lease_id_unat)
  then have nz: "lease_id (lheap p ! l) \<noteq> 0" by (metis Zero_not_Suc unat_0)
  then have ge: "1 \<le> lease_id (lheap p ! l)" by (simp add: word_ge_1_iff)
  have nop: "lease_id (lheap p ! l) \<noteq> nopLease_ID (NOPLease k)"
    using nz by (simp add: nopLease_ID_def)
  have z: "leaseIDs (NewPool :: 'k pool) = 0" by (simp add: NewPool_def)
  have c: "leaseIDs p = of_nat (length (lheap p))" using i(1) by (simp add: inv_lease_def)
  have b: "leaseIDs q = leaseIDs p + 1 \<and>
            lheap q = lheap p @ [\<lparr>lease_group = a, lease_id = leaseIDs p + 1, relOnce = False\<rparr>]"
    if "step (GBranch a) p = Some q \<and> lheap q \<noteq> lheap p" for a q
    using step_GBranchD(10) [of a p q] that by auto
  show ?thesis
    apply (intro conjI allI impI)
    subgoal by (rule ge)
    subgoal by (rule nop)
    subgoal by (rule u)
    subgoal by (rule z)
    subgoal by (rule c)
    subgoal for a q using b [of a q] by simp
    subgoal for a q using b [of a q] by simp
    done
qed

text \<open>
  After \<open>2 ^ 64 - 1\<close> ids have been drawn the counter is \<open>2 ^ 64 - 1\<close>; the next candidate
  takes the counter plus 1, which is 0 in \<open>uint64\<close>, and it is granted.
\<close>

theorem granted_id_zero_counterexample:
  "granted_ids_after wrap_run = Some [Some 0]"
  by (rule wrap_run_ids)

theorem granted_id_positive_witness:
  "\<exists>p. exec idle_run NewPool = Some p \<and> reachable p \<and> length (lheap p) < 2 ^ 64 \<and>
       Some 0 \<in> set (granted p) \<and> 1 \<le> lease_id (lheap p ! 0) \<and>
       lease_id (lheap p ! 0) \<noteq> nopLease_ID (NOPLease ''a'') \<and>
       unat (lease_id (lheap p ! 0)) = 1 \<and> leaseIDs p = 1"
proof -
  obtain p :: "string pool" where p: "exec idle_run NewPool = Some p"
    and g: "granted p = [Some 0]" "length (lheap p) = 1"
    by (simp add: idle_run_def exec_defs)
  have rp: "reachable p" unfolding reachable_def using p by blast
  have m: "Some 0 \<in> set (granted p)" using g(1) by simp
  have small: "length (lheap p) < 2 ^ 64" using g(2) by simp
  note t = granted_id_positive [OF rp small m, of "''a''"]
  have t1: "1 \<le> lease_id (lheap p ! 0)" using t by (rule conjunct1)
  have t2: "lease_id (lheap p ! 0) \<noteq> nopLease_ID (NOPLease ''a'')"
    using t [THEN conjunct2] by (rule conjunct1)
  have t3: "unat (lease_id (lheap p ! 0)) = 1"
    using t [THEN conjunct2, THEN conjunct2, THEN conjunct1] by simp
  have t4: "leaseIDs p = 1"
    using t [THEN conjunct2, THEN conjunct2, THEN conjunct2, THEN conjunct2, THEN conjunct1] g(2)
    by simp
  show ?thesis
    by (intro exI [of _ p] conjI) (rule p rp small m t1 t2 t3 t4)+
qed

end
